theory Spec2Isabelle
  imports Main
begin

section \<open>JavaScript values, numbers and arrays\<close>

text \<open>
  The queue of \<^verbatim>\<open>queue.js\<close> stores arbitrary JavaScript values and uses the value
  \<^verbatim>\<open>undefined\<close> both as an element that can be pushed and as the result of a lookup
  that finds nothing. A stored value is therefore either \<open>Undefined\<close> or a proper
  value \<open>Val x\<close>; an array hole reads as \<open>Undefined\<close> too.
\<close>

datatype 'a val = Undefined | Val 'a

text \<open>
  The index fields hold JavaScript numbers. All numbers that the queue computes are
  integers or \<^verbatim>\<open>NaN\<close> (the remainder by a zero length, and anything computed from it).
\<close>

datatype number = NaN | N int

fun js_add :: "number \<Rightarrow> number \<Rightarrow> number" where
  "js_add (N a) (N b) = N (a + b)"
| "js_add _ _ = NaN"

fun js_sub :: "number \<Rightarrow> number \<Rightarrow> number" where
  "js_sub (N a) (N b) = N (a - b)"
| "js_sub _ _ = NaN"

text \<open>The operator \<^verbatim>\<open>%\<close>: the result has the sign of the dividend; a zero divisor gives NaN.\<close>

fun js_rem :: "number \<Rightarrow> number \<Rightarrow> number" where
  "js_rem (N a) (N b) = (if b = 0 then NaN else N (sgn a * (\<bar>a\<bar> mod \<bar>b\<bar>)))"
| "js_rem _ _ = NaN"

text \<open>Comparisons: every comparison with NaN is false.\<close>

fun js_lt :: "number \<Rightarrow> number \<Rightarrow> bool" where
  "js_lt (N a) (N b) = (a < b)"
| "js_lt _ _ = False"

fun js_gt :: "number \<Rightarrow> number \<Rightarrow> bool" where
  "js_gt (N a) (N b) = (a > b)"
| "js_gt _ _ = False"

fun js_ge :: "number \<Rightarrow> number \<Rightarrow> bool" where
  "js_ge (N a) (N b) = (a \<ge> b)"
| "js_ge _ _ = False"

text \<open>
  \<^verbatim>\<open>i < (f + b) / 2\<close>: the quotient may be a half-integer; over the rationals the
  comparison is \<open>2 * i < f + b\<close>.
\<close>

fun js_lt_half :: "number \<Rightarrow> number \<Rightarrow> bool" where
  "js_lt_half (N i) (N s) = (2 * i < s)"
| "js_lt_half _ _ = False"

text \<open>
  A JavaScript array: the indexed elements \<open>elems\<close> (the array's \<^verbatim>\<open>length\<close> is the
  length of this list), and the properties stored under keys that are not array
  indices, which is where a write to \<^verbatim>\<open>a[-1]\<close> or \<^verbatim>\<open>a[NaN]\<close> goes. A property that
  was never written reads as \<open>Undefined\<close>.
\<close>

record 'a jsarray =
  elems :: "'a val list"
  props :: "number \<Rightarrow> 'a val"

definition alen :: "'a jsarray \<Rightarrow> int" where
  "alen a = int (length (elems a))"

text \<open>\<^verbatim>\<open>a[k]\<close>\<close>

fun aget :: "'a jsarray \<Rightarrow> number \<Rightarrow> 'a val" where
  "aget a (N k) =
     (if 0 \<le> k \<and> k < alen a then elems a ! nat k
      else if k < 0 then props a (N k)
      else Undefined)"
| "aget a NaN = props a NaN"

text \<open>\<^verbatim>\<open>a[k] = v\<close>: a write at or beyond the length extends the array with holes.\<close>

fun aset :: "'a jsarray \<Rightarrow> number \<Rightarrow> 'a val \<Rightarrow> 'a jsarray" where
  "aset a (N k) v =
     (if 0 \<le> k \<and> k < alen a then a\<lparr>elems := (elems a)[nat k := v]\<rparr>
      else if 0 \<le> k then
        a\<lparr>elems := elems a @ replicate (nat k - length (elems a)) Undefined @ [v]\<rparr>
      else a\<lparr>props := (props a)(N k := v)\<rparr>)"
| "aset a NaN v = a\<lparr>props := (props a)(NaN := v)\<rparr>"

text \<open>\<^verbatim>\<open>a.length = n\<close>: truncates, or pads with holes.\<close>

definition set_length :: "'a jsarray \<Rightarrow> int \<Rightarrow> 'a jsarray" where
  "set_length a n =
     a\<lparr>elems := take (nat n) (elems a) @ replicate (nat n - length (elems a)) Undefined\<rparr>"

text \<open>
  \<^verbatim>\<open>Array.prototype.copyWithin(target, start, end)\<close>. Each argument is made an
  integer (NaN counts as 0), a negative one is taken from the end, and all are
  clamped to the length; \<open>count\<close> elements are then moved as if through a copy.
\<close>

fun relative_index :: "number \<Rightarrow> int \<Rightarrow> int" where
  "relative_index NaN len = 0"
| "relative_index (N k) len = (if k < 0 then max (len + k) 0 else min k len)"

definition copyWithin :: "'a jsarray \<Rightarrow> number \<Rightarrow> number \<Rightarrow> number \<Rightarrow> 'a jsarray" where
  "copyWithin a target start stop =
     (let len = alen a;
          to = relative_index target len;
          from = relative_index start len;
          final = relative_index stop len;
          count = min (final - from) (len - to)
      in if count > 0 then
           a\<lparr>elems := take (nat to) (elems a)
                       @ take (nat count) (drop (nat from) (elems a))
                       @ drop (nat (to + count)) (elems a)\<rparr>
         else a)"

section \<open>Queue\<close>

record 'a queue =
  q_array :: "'a jsarray"
  q_size :: int
  q_backIndex :: number
  q_frontIndex :: number

text \<open>
  The constructor's argument: an iterable with its elements, a number, or anything
  else (an omitted argument, a string, ...), for which the capacity is 8. A number
  that is not an integer (a fraction, NaN, an infinity) is \<open>NonInteger\<close>.
\<close>

datatype 'a arg = Iterable "'a val list" | Capacity int | NonInteger | Other

datatype error = RangeError

text \<open>
  \<^verbatim>\<open>new Array(n)\<close> throws a RangeError unless \<open>n\<close> is an integer in \<open>[0, 2^32)\<close>;
  otherwise it is an array of \<open>n\<close> holes.
\<close>

definition new_Array :: "int \<Rightarrow> error + 'a jsarray" where
  "new_Array n =
     (if 0 \<le> n \<and> n < 2 ^ 32
      then Inr \<lparr>elems = replicate (nat n) Undefined, props = (\<lambda>_. Undefined)\<rparr>
      else Inl RangeError)"

definition Array_from :: "'a val list \<Rightarrow> 'a jsarray" where
  "Array_from xs = \<lparr>elems = xs, props = (\<lambda>_. Undefined)\<rparr>"

definition empty_queue :: "int \<Rightarrow> error + 'a queue" where
  "empty_queue capacity =
     (case new_Array capacity of
        Inl e \<Rightarrow> Inl e
      | Inr a \<Rightarrow> Inr \<lparr>q_array = a, q_size = 0, q_backIndex = N 0, q_frontIndex = N 0\<rparr>)"

definition Queue :: "'a arg \<Rightarrow> error + 'a queue" where
  "Queue arg =
     (case arg of
        Iterable xs \<Rightarrow>
          Inr \<lparr>q_array = Array_from xs, q_size = int (length xs),
               q_backIndex = N (int (length xs) - 1), q_frontIndex = N 0\<rparr>
      | Capacity n \<Rightarrow> empty_queue n
      | NonInteger \<Rightarrow> Inl RangeError
      | Other \<Rightarrow> empty_queue 8)"

text \<open>The getters \<^verbatim>\<open>size\<close>, \<^verbatim>\<open>front\<close> and \<^verbatim>\<open>back\<close>.\<close>

definition get_size :: "('a, 'z) queue_scheme \<Rightarrow> int" where
  "get_size q = q_size q"

definition get_front :: "('a, 'z) queue_scheme \<Rightarrow> 'a val" where
  "get_front q = (if q_size q \<noteq> 0 then aget (q_array q) (q_frontIndex q) else Undefined)"

definition get_back :: "('a, 'z) queue_scheme \<Rightarrow> 'a val" where
  "get_back q = (if q_size q \<noteq> 0 then aget (q_array q) (q_backIndex q) else Undefined)"

text \<open>\<^verbatim>\<open>_at(index)\<close>\<close>

definition q_at :: "('a, 'z) queue_scheme \<Rightarrow> int \<Rightarrow> 'a val" where
  "q_at q index =
     (let i = js_rem (js_add (q_frontIndex q) (N index)) (N (alen (q_array q)))
      in aget (q_array q) i)"

text \<open>
  \<^verbatim>\<open>_expand()\<close>. The inner test reads \<^verbatim>\<open>this.backIndex\<close>, a property that no queue
  has (the field is \<^verbatim>\<open>_backIndex\<close>): it is \<^verbatim>\<open>undefined\<close>, and \<^verbatim>\<open>undefined + 1\<close> is NaN.
\<close>

definition q_expand :: "('a, 'z) queue_scheme \<Rightarrow> ('a, 'z) queue_scheme" where
  "q_expand q =
     (let oldLength = alen (q_array q);
          q1 = q\<lparr>q_array := set_length (q_array q) (oldLength * 2)\<rparr>
      in if js_lt (q_backIndex q1) (q_frontIndex q1) then
           (if js_gt (js_sub (N oldLength) (q_frontIndex q1)) (js_add NaN (N 1)) then
              q1\<lparr>q_array := copyWithin (q_array q1)
                    (js_add (q_frontIndex q1) (N oldLength)) (q_frontIndex q1) (N oldLength),
                 q_frontIndex := js_add (q_frontIndex q1) (N oldLength)\<rparr>
            else
              q1\<lparr>q_array := copyWithin (q_array q1)
                    (N oldLength) (N 0) (js_add (q_backIndex q1) (N 1)),
                 q_backIndex := js_add (q_backIndex q1) (N oldLength)\<rparr>)
         else q1)"

text \<open>The iterator yields \<^verbatim>\<open>_at(0)\<close>, ..., \<^verbatim>\<open>_at(size - 1)\<close>.\<close>

definition iterate :: "('a, 'z) queue_scheme \<Rightarrow> 'a val list" where
  "iterate q = map (\<lambda>i. q_at q (int i)) [0..<nat (q_size q)]"

definition at :: "('a, 'z) queue_scheme \<Rightarrow> int \<Rightarrow> 'a val" where
  "at q index = (if index \<ge> 0 \<and> index < q_size q then q_at q index else Undefined)"

text \<open>
  \<^verbatim>\<open>push(item)\<close> calls \<^verbatim>\<open>this._expand()\<close>, which a subclass overrides: the method
  that runs is a parameter, and the base class's own \<open>push\<close> passes \<open>q_expand\<close>.
\<close>

definition push_with ::
  "(('a, 'z) queue_scheme \<Rightarrow> ('a, 'z) queue_scheme) \<Rightarrow>
   ('a, 'z) queue_scheme \<Rightarrow> 'a val \<Rightarrow> ('a, 'z) queue_scheme" where
  "push_with expand q item =
     (let q' =
        (if q_size q = 0 then q\<lparr>q_array := aset (q_array q) (q_backIndex q) item\<rparr>
         else
           (let q1 = (if q_size q = alen (q_array q) then expand q else q);
                q2 = q1\<lparr>q_backIndex :=
                          js_rem (js_add (q_backIndex q1) (N 1)) (N (alen (q_array q1)))\<rparr>
            in q2\<lparr>q_array := aset (q_array q2) (q_backIndex q2) item\<rparr>))
      in q'\<lparr>q_size := q_size q' + 1\<rparr>)"

definition push :: "('a, 'z) queue_scheme \<Rightarrow> 'a val \<Rightarrow> ('a, 'z) queue_scheme" where
  "push q item = push_with q_expand q item"

definition pop :: "('a, 'z) queue_scheme \<Rightarrow> 'a val \<times> ('a, 'z) queue_scheme" where
  "pop q =
     (if q_size q \<noteq> 0 then
        (let prevFront = aget (q_array q) (q_frontIndex q);
             q1 = (if q_size q > 1
                   then q\<lparr>q_frontIndex :=
                            js_rem (js_add (q_frontIndex q) (N 1)) (N (alen (q_array q)))\<rparr>
                   else q)
         in (prevFront, q1\<lparr>q_size := q_size q1 - 1\<rparr>))
      else (Undefined, q))"

definition remove :: "('a, 'z) queue_scheme \<Rightarrow> int \<Rightarrow> 'a val \<times> ('a, 'z) queue_scheme" where
  "remove q index =
     (let item = at q index
      in if item = Undefined then (Undefined, q)
         else
           (let q1 =
              (if q_size q > 1 then
                 (let i = js_rem (js_add (q_frontIndex q) (N index)) (N (alen (q_array q)))
                  in if js_ge (q_backIndex q) (q_frontIndex q) then
                       (if js_lt_half i (js_add (q_frontIndex q) (q_backIndex q)) then
                          q\<lparr>q_array := copyWithin (q_array q)
                                (js_add (q_frontIndex q) (N 1)) (q_frontIndex q) i,
                            q_frontIndex := js_add (q_frontIndex q) (N 1)\<rparr>
                        else
                          q\<lparr>q_array := copyWithin (q_array q)
                                i (js_add i (N 1)) (js_add (q_backIndex q) (N 1)),
                            q_backIndex := js_sub (q_backIndex q) (N 1)\<rparr>)
                     else if js_ge i (q_frontIndex q) then
                       q\<lparr>q_array := copyWithin (q_array q)
                             (js_add (q_frontIndex q) (N 1)) (q_frontIndex q) i,
                         q_frontIndex := js_add (q_frontIndex q) (N 1)\<rparr>
                     else
                       q\<lparr>q_array := copyWithin (q_array q)
                             i (js_add i (N 1)) (js_add (q_backIndex q) (N 1)),
                         q_backIndex := js_sub (q_backIndex q) (N 1)\<rparr>)
               else q)
            in (item, q1\<lparr>q_size := q_size q1 - 1\<rparr>)))"

definition clear :: "('a, 'z) queue_scheme \<Rightarrow> ('a, 'z) queue_scheme" where
  "clear q = q\<lparr>q_frontIndex := N 0, q_backIndex := N 0, q_size := 0\<rparr>"

section \<open>TrackerQueue\<close>

text \<open>
  The subclass adds the \<^verbatim>\<open>Map\<close> \<^verbatim>\<open>_tracker\<close> from keys to slots and the key function.
\<close>

record ('a, 'k) tracker_queue = "'a queue" +
  q_tracker :: "'k \<Rightarrow> number option"
  q_key :: "'a val \<Rightarrow> 'k"

text \<open>The loop \<^verbatim>\<open>for (let i = 0; i < this._size; ++i) tracker.set(key(array[i]), i)\<close>.\<close>

definition track_slots ::
  "('a, 'k, 'z) tracker_queue_scheme \<Rightarrow> ('a, 'k, 'z) tracker_queue_scheme" where
  "track_slots q =
     q\<lparr>q_tracker :=
         fold (\<lambda>i t. t(q_key q (aget (q_array q) (N (int i))) \<mapsto> N (int i)))
              [0..<nat (q_size q)] (q_tracker q)\<rparr>"

definition TrackerQueue ::
  "'a arg \<Rightarrow> ('a val \<Rightarrow> 'k) \<Rightarrow> error + ('a, 'k) tracker_queue" where
  "TrackerQueue arg key =
     (case Queue arg of
        Inl e \<Rightarrow> Inl e
      | Inr q \<Rightarrow>
          Inr (track_slots
                 \<lparr>q_array = q_array q, q_size = q_size q, q_backIndex = q_backIndex q,
                  q_frontIndex = q_frontIndex q, q_tracker = Map.empty, q_key = key\<rparr>))"

definition t_expand ::
  "('a, 'k, 'z) tracker_queue_scheme \<Rightarrow> ('a, 'k, 'z) tracker_queue_scheme" where
  "t_expand q = track_slots (q_expand q)"

definition t_push ::
  "('a, 'k, 'z) tracker_queue_scheme \<Rightarrow> 'a val \<Rightarrow> ('a, 'k, 'z) tracker_queue_scheme" where
  "t_push q item =
     (let q1 = push_with t_expand q item
      in q1\<lparr>q_tracker := (q_tracker q1)(q_key q1 item \<mapsto> q_backIndex q1)\<rparr>)"

definition t_pop ::
  "('a, 'k, 'z) tracker_queue_scheme \<Rightarrow> 'a val \<times> ('a, 'k, 'z) tracker_queue_scheme" where
  "t_pop q =
     (let (popped, q1) = pop q
      in if popped \<noteq> Undefined
         then (popped, q1\<lparr>q_tracker := (q_tracker q1)(q_key q1 popped := None)\<rparr>)
         else (popped, q1))"

definition t_remove ::
  "('a, 'k, 'z) tracker_queue_scheme \<Rightarrow> int \<Rightarrow>
   'a val \<times> ('a, 'k, 'z) tracker_queue_scheme" where
  "t_remove q index =
     (let (item, q1) = remove q index
      in if item \<noteq> Undefined then
           (let t1 = (q_tracker q1)(q_key q1 item := None);
                t2 = fold (\<lambda>i t.
                       let k = js_rem (js_add (q_frontIndex q1) (N (int i)))
                                      (N (alen (q_array q1)))
                       in t(q_key q1 (aget (q_array q1) k) \<mapsto> k))
                     [0..<nat index] t1
            in (item, q1\<lparr>q_tracker := t2\<rparr>))
         else (item, q1))"

definition position :: "('a, 'k, 'z) tracker_queue_scheme \<Rightarrow> 'a val \<Rightarrow> number" where
  "position q item =
     (case q_tracker q (q_key q item) of
        Some queueIndex \<Rightarrow>
          (let n = js_sub queueIndex (q_frontIndex q)
           in if js_ge n (N 0) then n else js_add (N (q_size q)) n)
      | None \<Rightarrow> N (- 1))"

definition t_clear ::
  "('a, 'k, 'z) tracker_queue_scheme \<Rightarrow> ('a, 'k, 'z) tracker_queue_scheme" where
  "t_clear q = (clear q)\<lparr>q_tracker := Map.empty\<rparr>"

section \<open>Client programs\<close>

text \<open>
  A caller's program is a list of calls on one queue. \<open>run\<close> performs them in order
  and keeps the queue; the results of the calls are dropped.
\<close>

datatype 'a op = Push "'a val" | Pop | Remove int | Clear

fun exec :: "'a op \<Rightarrow> ('a, 'z) queue_scheme \<Rightarrow> ('a, 'z) queue_scheme" where
  "exec (Push x) q = push q x"
| "exec Pop q = snd (pop q)"
| "exec (Remove i) q = snd (remove q i)"
| "exec Clear q = clear q"

definition run :: "'a op list \<Rightarrow> ('a, 'z) queue_scheme \<Rightarrow> ('a, 'z) queue_scheme" where
  "run ops q = fold exec ops q"

fun t_exec ::
  "'a op \<Rightarrow> ('a, 'k, 'z) tracker_queue_scheme \<Rightarrow> ('a, 'k, 'z) tracker_queue_scheme" where
  "t_exec (Push x) q = t_push q x"
| "t_exec Pop q = snd (t_pop q)"
| "t_exec (Remove i) q = snd (t_remove q i)"
| "t_exec Clear q = t_clear q"

definition t_run ::
  "'a op list \<Rightarrow> ('a, 'k, 'z) tracker_queue_scheme \<Rightarrow> ('a, 'k, 'z) tracker_queue_scheme" where
  "t_run ops q = fold t_exec ops q"

text \<open>
  \<open>results\<close> performs the calls and collects what the \<open>pop\<close> calls return, in
  order. \<open>pushed\<close> lists the values that the calls push. \<open>fifo_calls cs n\<close> says that
  the calls are pushes and pops only and that, on a queue that holds \<open>n\<close> elements,
  no pop finds the queue empty.
\<close>

fun results :: "'a op list \<Rightarrow> ('a, 'z) queue_scheme \<Rightarrow> 'a val list" where
  "results [] q = []"
| "results (Push x # cs) q = results cs (push q x)"
| "results (Pop # cs) q = fst (pop q) # results cs (snd (pop q))"
| "results (Remove i # cs) q = results cs (snd (remove q i))"
| "results (Clear # cs) q = results cs (clear q)"

fun pushed :: "'a op list \<Rightarrow> 'a val list" where
  "pushed [] = []"
| "pushed (Push x # cs) = x # pushed cs"
| "pushed (_ # cs) = pushed cs"

fun fifo_calls :: "'a op list \<Rightarrow> nat \<Rightarrow> bool" where
  "fifo_calls [] n = True"
| "fifo_calls (Push x # cs) n = fifo_calls cs (Suc n)"
| "fifo_calls (Pop # cs) n = (0 < n \<and> fifo_calls cs (n - 1))"
| "fifo_calls (_ # cs) n = False"

section \<open>Invariants\<close>

text \<open>
  The predicates of this section are not in the source: they describe the states that
  the constructor and the four mutators can produce, and carry the proofs below.

  The logical position \<open>j\<close> of a queue with front index \<open>f\<close> and a store of length
  \<open>L\<close> is the slot \<open>(f + j) mod L\<close>; for \<open>f \<le> L\<close> and \<open>j < L\<close> that is:
\<close>

definition slot :: "int \<Rightarrow> int \<Rightarrow> int \<Rightarrow> int" where
  "slot f L j = (if f + j < L then f + j else f + j - L)"

text \<open>
  \<open>nice\<close>: the store is not empty and the back index is the slot of the last
  element, up to one length. The front index may be the length itself and the back
  index may be \<open>-1\<close>, since \<open>remove\<close> increments and decrements them without
  wrapping; they are never both.
\<close>

definition nice :: "('a, 'z) queue_scheme \<Rightarrow> bool" where
  "nice q =
     (case (q_frontIndex q, q_backIndex q) of
        (N f, N b) \<Rightarrow>
          (let L = alen (q_array q); s = max (q_size q) 1
           in 0 < L \<and> 0 \<le> q_size q \<and> q_size q \<le> L \<and> 0 \<le> f \<and> f \<le> L \<and> - 1 \<le> b \<and> b < L \<and>
              (b = f + s - 1 \<or> b = f + s - 1 - L) \<and> \<not> (f = L \<and> b = - 1))
      | _ \<Rightarrow> False)"

text \<open>
  \<open>degenerate\<close>: the store has length 0, after \<open>new Queue(0)\<close> or
  \<open>new Queue([])\<close>. A push then writes slot 0, the property \<^verbatim>\<open>-1\<close> or the property
  \<^verbatim>\<open>NaN\<close>, and \<open>q_at\<close> reads the property \<^verbatim>\<open>NaN\<close> whatever the position.
\<close>

definition degenerate :: "('a, 'z) queue_scheme \<Rightarrow> bool" where
  "degenerate q =
     (alen (q_array q) = 0 \<and> 0 \<le> q_size q \<and>
      (q_backIndex q = N 0 \<and> q_frontIndex q = N 0 \<and> q_size q = 0
       \<or> q_backIndex q = N (- 1) \<and> q_frontIndex q = N 0 \<and> q_size q \<le> 1 \<and>
         props (q_array q) NaN = Undefined
       \<or> q_backIndex q = NaN \<and> (q_frontIndex q = N 0 \<or> q_frontIndex q = NaN)))"

definition inv :: "('a, 'z) queue_scheme \<Rightarrow> bool" where
  "inv q = (nice q \<or> degenerate q)"

text \<open>\<open>proper\<close>: a \<open>nice\<close> state whose two indices are slots of the store.\<close>

definition proper :: "('a, 'z) queue_scheme \<Rightarrow> bool" where
  "proper q = (nice q \<and> js_lt (q_frontIndex q) (N (alen (q_array q))) \<and> js_ge (q_backIndex q) (N 0))"

section \<open>Numbers and arrays\<close>

lemma js_rem_nonneg: "0 \<le> a \<Longrightarrow> 0 < b \<Longrightarrow> js_rem (N a) (N b) = N (a mod b)"
  by (cases "a = 0") (simp_all add: sgn_if)

lemma mod_wrap_once:
  fixes L x :: int
  assumes "L \<le> x" "x < 2 * L"
  shows "x mod L = x - L"
proof -
  have "(x - L) mod L = x mod L" by (rule minus_mod_self2)
  moreover from assms have "(x - L) mod L = x - L" by (intro mod_pos_pos_trivial) auto
  ultimately show ?thesis by simp
qed

lemma js_rem_small: "0 \<le> a \<Longrightarrow> a < b \<Longrightarrow> js_rem (N a) (N b) = N a"
  using js_rem_nonneg[of a b] by simp

lemma js_rem_wrap: "b \<le> a \<Longrightarrow> a < 2 * b \<Longrightarrow> 0 < b \<Longrightarrow> js_rem (N a) (N b) = N (a - b)"
  using js_rem_nonneg[of a b] mod_wrap_once[of b a] by simp

lemma js_rem_zero: "js_rem x (N 0) = NaN"
  by (cases x) simp_all

declare js_rem.simps [simp del]

lemma alen_nonneg: "0 \<le> alen a"
  by (simp add: alen_def)

lemma relative_index_range: "0 \<le> relative_index x (alen a) \<and> relative_index x (alen a) \<le> alen a"
  by (cases x) (auto simp: alen_def)

lemma alen_copyWithin: "alen (copyWithin a t s e) = alen a"
  using relative_index_range[of t a] relative_index_range[of s a] relative_index_range[of e a]
  by (auto simp: copyWithin_def Let_def alen_def)

lemma props_copyWithin: "props (copyWithin a t s e) = props a"
  by (simp add: copyWithin_def Let_def)

lemma nth_move:
  fixes t c s k :: nat
  assumes "t + c \<le> length xs" "s + c \<le> length xs" "k < length xs"
  shows "(take t xs @ take c (drop s xs) @ drop (t + c) xs) ! k =
         (if t \<le> k \<and> k < t + c then xs ! (s + (k - t)) else xs ! k)"
proof -
  have l1: "length (take t xs) = t" using assms by simp
  have l2: "length (take c (drop s xs)) = c" using assms by simp
  consider "k < t" | "t \<le> k" "k < t + c" | "t + c \<le> k" by linarith
  then show ?thesis
  proof cases
    case 1
    with assms show ?thesis by (simp add: nth_append)
  next
    case 2
    then have "(take t xs @ take c (drop s xs) @ drop (t + c) xs) ! k
        = take c (drop s xs) ! (k - t)"
      by (simp add: nth_append l1 l2 del: length_take)
    also from 2 assms have "\<dots> = xs ! (s + (k - t))" by simp
    finally show ?thesis using 2 by simp
  next
    case 3
    then have "(take t xs @ take c (drop s xs) @ drop (t + c) xs) ! k
        = drop (t + c) xs ! (k - t - c)"
      by (simp add: nth_append l1 l2 del: length_take)
    also from 3 assms have "\<dots> = xs ! k" by simp
    finally show ?thesis using 3 by simp
  qed
qed

lemma nth_copyWithin:
  assumes "0 \<le> t" "0 \<le> s" "s \<le> e" "e \<le> alen a" "t + (e - s) \<le> alen a" "0 \<le> k" "k < alen a"
  shows "elems (copyWithin a (N t) (N s) (N e)) ! nat k =
         (if t \<le> k \<and> k < t + (e - s) then elems a ! nat (k - t + s) else elems a ! nat k)"
proof (cases "e - s > 0")
  case False
  with assms show ?thesis by (auto simp: copyWithin_def Let_def)
next
  case True
  with assms have c: "min (e - s) (alen a - t) = e - s" by simp
  from assms True have el: "elems (copyWithin a (N t) (N s) (N e)) =
     take (nat t) (elems a) @ take (nat (e - s)) (drop (nat s) (elems a)) @ drop (nat t + nat (e - s)) (elems a)"
    by (simp add: copyWithin_def Let_def c min_def nat_add_distrib)
  have 1: "nat t + nat (e - s) \<le> length (elems a)" using assms True by (simp add: alen_def)
  have 2: "nat s + nat (e - s) \<le> length (elems a)" using assms True by (simp add: alen_def)
  have 3: "nat k < length (elems a)" using assms by (simp add: alen_def)
  have 4: "(nat t \<le> nat k \<and> nat k < nat t + nat (e - s)) = (t \<le> k \<and> k < t + (e - s))"
    using assms True by auto
  show ?thesis
  proof (cases "t \<le> k \<and> k < t + (e - s)")
    case True
    with assms have "nat s + (nat k - nat t) = nat (k - t + s)" by arith
    with True show ?thesis unfolding el nth_move[OF 1 2 3] 4 by (simp only: if_True)
  next
    case False
    then show ?thesis unfolding el nth_move[OF 1 2 3] 4 by (simp only: if_False)
  qed
qed

lemma elems_aset_in: "0 \<le> k \<Longrightarrow> k < alen a \<Longrightarrow> elems (aset a (N k) v) = (elems a)[nat k := v]"
  by simp

lemma alen_aset_in: "k < alen a \<Longrightarrow> alen (aset a (N k) v) = alen a"
  by (simp add: alen_def)

lemma aget_in: "0 \<le> k \<Longrightarrow> k < alen a \<Longrightarrow> aget a (N k) = elems a ! nat k"
  by simp

declare aset.simps [simp del] aget.simps [simp del]

lemma elems_set_length_double:
  "elems (set_length a (alen a * 2)) = elems a @ replicate (length (elems a)) Undefined"
  by (simp add: set_length_def alen_def nat_mult_distrib)

section \<open>Positions and slots\<close>

lemma niceE:
  assumes "nice q"
  obtains f b where "q_frontIndex q = N f" "q_backIndex q = N b"
    "0 < alen (q_array q)" "0 \<le> q_size q" "q_size q \<le> alen (q_array q)"
    "0 \<le> f" "f \<le> alen (q_array q)" "- 1 \<le> b" "b < alen (q_array q)"
    "b = f + max (q_size q) 1 - 1 \<or> b = f + max (q_size q) 1 - 1 - alen (q_array q)"
    "\<not> (f = alen (q_array q) \<and> b = - 1)"
  using assms unfolding nice_def Let_def
  by (cases "q_frontIndex q"; cases "q_backIndex q") auto

lemma niceI:
  assumes "q_frontIndex q = N f" "q_backIndex q = N b"
    "0 < alen (q_array q)" "0 \<le> q_size q" "q_size q \<le> alen (q_array q)"
    "0 \<le> f" "f \<le> alen (q_array q)" "- 1 \<le> b" "b < alen (q_array q)"
    "b = f + max (q_size q) 1 - 1 \<or> b = f + max (q_size q) 1 - 1 - alen (q_array q)"
    "\<not> (f = alen (q_array q) \<and> b = - 1)"
  shows "nice q"
  using assms unfolding nice_def Let_def by simp

lemma q_at_slot:
  assumes "q_frontIndex q = N f" "0 \<le> f" "f \<le> alen (q_array q)" "0 \<le> j" "j < alen (q_array q)"
  shows "q_at q j = elems (q_array q) ! nat (slot f (alen (q_array q)) j)"
proof (cases "f + j < alen (q_array q)")
  case True
  with assms show ?thesis
    by (simp add: q_at_def slot_def js_rem_small aget_in)
next
  case False
  with assms have "js_rem (N (f + j)) (N (alen (q_array q))) = N (f + j - alen (q_array q))"
    by (intro js_rem_wrap) auto
  with False assms show ?thesis
    by (simp add: q_at_def slot_def aget_in)
qed

lemma push_empty:
  "q_size q = 0 \<Longrightarrow> push q x = q\<lparr>q_array := aset (q_array q) (q_backIndex q) x, q_size := 1\<rparr>"
  by (simp add: push_def push_with_def)

lemma push_room:
  "q_size q \<noteq> 0 \<Longrightarrow> q_size q \<noteq> alen (q_array q) \<Longrightarrow>
   push q x =
     q\<lparr>q_backIndex := js_rem (js_add (q_backIndex q) (N 1)) (N (alen (q_array q))),
       q_array := aset (q_array q)
                    (js_rem (js_add (q_backIndex q) (N 1)) (N (alen (q_array q)))) x,
       q_size := q_size q + 1\<rparr>"
  by (simp add: push_def push_with_def Let_def)

lemma push_full:
  "q_size q \<noteq> 0 \<Longrightarrow> q_size q = alen (q_array q) \<Longrightarrow>
   push q x =
     (q_expand q)\<lparr>q_backIndex := js_rem (js_add (q_backIndex (q_expand q)) (N 1))
                                        (N (alen (q_array (q_expand q)))),
       q_array := aset (q_array (q_expand q))
                    (js_rem (js_add (q_backIndex (q_expand q)) (N 1))
                            (N (alen (q_array (q_expand q))))) x,
       q_size := q_size q + 1\<rparr>"
  by (simp add: push_def push_with_def Let_def q_expand_def)

lemma alen_set_length_double: "alen (set_length a (alen a * 2)) = 2 * alen a"
  by (simp add: alen_def elems_set_length_double[unfolded alen_def])

lemma expand_flat:
  "q_frontIndex q = N f \<Longrightarrow> q_backIndex q = N b \<Longrightarrow> \<not> b < f \<Longrightarrow>
   q_expand q = q\<lparr>q_array := set_length (q_array q) (alen (q_array q) * 2)\<rparr>"
  by (simp add: q_expand_def Let_def)

lemma expand_wrapped:
  "q_frontIndex q = N f \<Longrightarrow> q_backIndex q = N b \<Longrightarrow> b < f \<Longrightarrow>
   q_expand q =
     q\<lparr>q_array := copyWithin (set_length (q_array q) (alen (q_array q) * 2))
                    (N (alen (q_array q))) (N 0) (N (b + 1)),
       q_backIndex := N (b + alen (q_array q))\<rparr>"
  by (simp add: q_expand_def Let_def)

section \<open>Push\<close>

lemma slot_range: "0 \<le> f \<Longrightarrow> f \<le> L \<Longrightarrow> 0 \<le> j \<Longrightarrow> j < L \<Longrightarrow> 0 \<le> slot f L j \<and> slot f L j < L"
  by (auto simp: slot_def)

lemma push_nice_empty:
  assumes "nice q" "q_size q = 0"
  shows "nice (push q x)"
    and "alen (q_array (push q x)) = alen (q_array q)"
    and "q_backIndex (push q x) = q_backIndex q"
proof -
  from assms(1) obtain f b where fb: "q_frontIndex q = N f" "q_backIndex q = N b"
    "0 < alen (q_array q)" "0 \<le> q_size q" "q_size q \<le> alen (q_array q)"
    "0 \<le> f" "f \<le> alen (q_array q)" "- 1 \<le> b" "b < alen (q_array q)"
    "b = f + max (q_size q) 1 - 1 \<or> b = f + max (q_size q) 1 - 1 - alen (q_array q)"
    "\<not> (f = alen (q_array q) \<and> b = - 1)"
    by (rule niceE)
  have len: "alen (aset (q_array q) (N b) x) = alen (q_array q)"
    using fb by (intro alen_aset_in) 
  show "nice (push q x)"
    using fb assms(2) len
    by (intro niceI[where f=f and b=b]) (simp_all add: push_empty)
  show "alen (q_array (push q x)) = alen (q_array q)"
    using assms(2) len fb(2) by (simp add: push_empty)
  show "q_backIndex (push q x) = q_backIndex q"
    using assms(2) by (simp add: push_empty)
qed

lemma push_nice_room:
  assumes "nice q" "q_size q \<noteq> 0" "q_size q \<noteq> alen (q_array q)"
  shows "nice (push q x)"
    and "\<And>j. 0 \<le> j \<Longrightarrow> j < q_size q \<Longrightarrow> q_at (push q x) j = q_at q j"
    and "alen (q_array (push q x)) = alen (q_array q)"
    and "js_ge (q_backIndex (push q x)) (N 0)"
proof -
  from assms(1) obtain f b where fb: "q_frontIndex q = N f" "q_backIndex q = N b"
    "0 < alen (q_array q)" "0 \<le> q_size q" "q_size q \<le> alen (q_array q)"
    "0 \<le> f" "f \<le> alen (q_array q)" "- 1 \<le> b" "b < alen (q_array q)"
    "b = f + max (q_size q) 1 - 1 \<or> b = f + max (q_size q) 1 - 1 - alen (q_array q)"
    "\<not> (f = alen (q_array q) \<and> b = - 1)"
    by (rule niceE)
  define L where "L = alen (q_array q)"
  define s where "s = q_size q"
  define b1 where "b1 = (if b + 1 < L then b + 1 else 0)"
  note fb' = fb[folded L_def s_def]
  have s: "0 < s" "s < L" using fb' assms(2,3) by (auto simp: s_def L_def)
  have rem: "js_rem (js_add (q_backIndex q) (N 1)) (N (alen (q_array q))) = N b1"
  proof (cases "b + 1 < L")
    case True
    with fb' show ?thesis by (simp add: b1_def js_rem_small L_def)
  next
    case False
    with fb' have "b + 1 = L" by simp
    with fb' have "js_rem (N (b + 1)) (N L) = N (b + 1 - L)" by (intro js_rem_wrap) auto
    with False \<open>b + 1 = L\<close> fb' show ?thesis by (simp add: b1_def L_def)
  qed
  have b1: "0 \<le> b1" "b1 < L" using fb' by (auto simp: b1_def)
  have eq: "push q x = q\<lparr>q_backIndex := N b1, q_array := aset (q_array q) (N b1) x, q_size := s + 1\<rparr>"
    using assms(2,3) by (simp add: push_room rem s_def)
  have len: "alen (aset (q_array q) (N b1) x) = L"
    using b1 by (simp add: alen_aset_in L_def)
  have el: "elems (aset (q_array q) (N b1) x) = (elems (q_array q))[nat b1 := x]"
    using b1 by (simp add: L_def elems_aset_in)
  have b1': "b1 = f + (s + 1) - 1 \<or> b1 = f + (s + 1) - 1 - L"
    using fb' s by (auto simp: b1_def max_def split: if_splits)
  show "nice (push q x)"
    unfolding eq using fb' s b1 b1' len
    by (intro niceI[where f=f and b=b1]) (simp_all add: max_def)
  show "alen (q_array (push q x)) = alen (q_array q)"
    by (simp add: eq len L_def)
  show "js_ge (q_backIndex (push q x)) (N 0)"
    using b1 by (simp add: eq)
  fix j assume j: "0 \<le> j" "j < q_size q"
  then have jL: "j < L" "j < s" using s by (simp_all add: s_def)
  have 1: "q_at (push q x) j = elems (q_array (push q x)) ! nat (slot f (alen (q_array (push q x))) j)"
    using fb' j jL unfolding eq by (intro q_at_slot) (simp_all add: len)
  have 2: "q_at q j = elems (q_array q) ! nat (slot f L j)"
    using fb' j jL unfolding L_def by (intro q_at_slot) (simp_all)
  have ne: "slot f L j \<noteq> b1"
    using fb' s j jL b1 by (auto simp: b1_def slot_def max_def split: if_splits)
  have rg: "0 \<le> slot f L j \<and> slot f L j < L" using fb' j jL by (intro slot_range) auto
  from ne rg b1 have "nat b1 \<noteq> nat (slot f L j)" by auto
  then show "q_at (push q x) j = q_at q j"
    unfolding 1 2 by (simp add: eq len el)
qed

lemma nth_set_length_double:
  "0 \<le> k \<Longrightarrow> k < alen a \<Longrightarrow> elems (set_length a (alen a * 2)) ! nat k = elems a ! nat k"
proof -
  assume "0 \<le> k" "k < alen a"
  then have "nat k < length (elems a)" by (simp add: alen_def)
  then show ?thesis
    unfolding elems_set_length_double by (simp add: nth_append)
qed

lemma push_nice_full:
  assumes "nice q" "q_size q \<noteq> 0" "q_size q = alen (q_array q)"
  shows "nice (push q x)"
    and "\<And>j. 0 \<le> j \<Longrightarrow> j < q_size q \<Longrightarrow> q_at (push q x) j = q_at q j"
    and "alen (q_array (push q x)) = 2 * alen (q_array q)"
    and "js_ge (q_backIndex (push q x)) (N 0)"
proof -
  from assms(1) obtain f b where fb: "q_frontIndex q = N f" "q_backIndex q = N b"
    "0 < alen (q_array q)" "0 \<le> q_size q" "q_size q \<le> alen (q_array q)"
    "0 \<le> f" "f \<le> alen (q_array q)" "- 1 \<le> b" "b < alen (q_array q)"
    "b = f + max (q_size q) 1 - 1 \<or> b = f + max (q_size q) 1 - 1 - alen (q_array q)"
    "\<not> (f = alen (q_array q) \<and> b = - 1)"
    by (rule niceE)
  define L where "L = alen (q_array q)"
  define A0 where "A0 = set_length (q_array q) (alen (q_array q) * 2)"
  note fb' = fb[folded L_def]
  have s: "q_size q = L" using assms(3) by (simp add: L_def)
  have L: "0 < L" using fb' by simp
  have "max (q_size q) 1 = L" using s L by simp
  with fb'(10) have bf: "b = f + L - 1 \<or> b = f - 1" by auto
  have len0: "alen A0 = 2 * L" by (simp add: A0_def L_def alen_set_length_double)
  have nth0: "\<And>k. 0 \<le> k \<Longrightarrow> k < L \<Longrightarrow> elems A0 ! nat k = elems (q_array q) ! nat k"
    unfolding A0_def L_def by (rule nth_set_length_double)
  have G: "nice (push q x) \<and> (\<forall>j. 0 \<le> j \<and> j < L \<longrightarrow> q_at (push q x) j = q_at q j) \<and>
      alen (q_array (push q x)) = 2 * L \<and> js_ge (q_backIndex (push q x)) (N 0)"
  proof (cases "b < f")
    case True
    with bf L have b: "b = f - 1" by auto
    define A1 where "A1 = copyWithin A0 (N L) (N 0) (N (b + 1))"
    define b2 where "b2 = (if f < L then f + L else 0)"
    have ex: "q_expand q = q\<lparr>q_array := A1, q_backIndex := N (b + L)\<rparr>"
      using fb(1,2) True by (simp add: expand_wrapped A1_def A0_def L_def)
    have len1: "alen A1 = 2 * L" by (simp add: A1_def alen_copyWithin len0)
    have nth1: "elems A1 ! nat k = (if L \<le> k \<and> k < L + f then elems A0 ! nat (k - L) else elems A0 ! nat k)"
      if "0 \<le> k" "k < 2 * L" for k
      using nth_copyWithin[of L 0 "b + 1" A0 k] that fb' L b len0 by (simp add: A1_def)
    have rem: "js_rem (N (b + L + 1)) (N (2 * L)) = N b2"
    proof (cases "f < L")
      case True
      with fb' b L show ?thesis by (simp add: b2_def js_rem_small)
    next
      case False
      with fb' have "f = L" by simp
      with L b have "js_rem (N (b + L + 1)) (N (2 * L)) = N (b + L + 1 - 2 * L)"
        by (intro js_rem_wrap) auto
      with \<open>f = L\<close> b show ?thesis by (simp add: b2_def)
    qed
    have b2: "0 \<le> b2" "b2 < 2 * L" using fb' L by (auto simp: b2_def)
    have eq: "push q x = q\<lparr>q_array := aset A1 (N b2) x, q_backIndex := N b2, q_size := L + 1\<rparr>"
      using assms(2,3) rem[unfolded L_def] len1[unfolded L_def] by (simp add: push_full ex L_def)
    have len2: "alen (aset A1 (N b2) x) = 2 * L"
      using b2 by (simp add: alen_aset_in len1)
    have el2: "elems (aset A1 (N b2) x) = (elems A1)[nat b2 := x]"
      using b2 by (simp add: elems_aset_in len1)
    have n: "nice (push q x)"
      unfolding eq using fb' L b2 len2
      by (intro niceI[where f=f and b=b2]) (auto simp: max_def b2_def)
    have at: "q_at (push q x) j = q_at q j" if j: "0 \<le> j" "j < L" for j
    proof -
      have 1: "q_at (push q x) j = elems (q_array (push q x)) ! nat (slot f (alen (q_array (push q x))) j)"
        using fb' j L unfolding eq by (intro q_at_slot) (simp_all add: len2)
      have 2: "q_at q j = elems (q_array q) ! nat (slot f L j)"
        using fb' j unfolding L_def by (intro q_at_slot) (simp_all)
      have sl: "slot f (2 * L) j = f + j" using fb' j by (simp add: slot_def)
      have ne: "nat b2 \<noteq> nat (f + j)" using fb' j L by (auto simp: b2_def)
      have 3: "elems (q_array (push q x)) ! nat (f + j) = elems A1 ! nat (f + j)"
        using ne by (simp add: eq el2)
      have 4: "elems A1 ! nat (f + j) = elems (q_array q) ! nat (slot f L j)"
      proof (cases "f + j < L")
        case True
        with fb' j show ?thesis by (simp add: nth1 nth0 slot_def)
      next
        case False
        with fb' j show ?thesis by (simp add: nth1 nth0 slot_def)
      qed
      show ?thesis unfolding 1 2 using 3 4 sl by (simp add: eq len2)
    qed
    from n at b2 show ?thesis by (simp add: eq len2)
  next
    case False
    with bf fb' L have b: "b = L - 1" "f = 0" by auto
    have ex: "q_expand q = q\<lparr>q_array := A0\<rparr>"
      using fb(1,2) False by (simp add: expand_flat A0_def)
    have rem: "js_rem (N (b + 1)) (N (2 * L)) = N L"
      using b L by (simp add: js_rem_small)
    have eq: "push q x = q\<lparr>q_array := aset A0 (N L) x, q_backIndex := N L, q_size := L + 1\<rparr>"
      using assms(2,3) fb(2) rem[unfolded L_def] len0[unfolded L_def]
      by (simp add: push_full ex L_def)
    have len2: "alen (aset A0 (N L) x) = 2 * L"
      using L by (simp add: alen_aset_in len0)
    have el2: "elems (aset A0 (N L) x) = (elems A0)[nat L := x]"
      using L by (simp add: elems_aset_in len0)
    have n: "nice (push q x)"
      unfolding eq using fb' L b len2
      by (intro niceI[where f=f and b=L]) (auto simp: max_def)
    have at: "q_at (push q x) j = q_at q j" if j: "0 \<le> j" "j < L" for j
    proof -
      have 1: "q_at (push q x) j = elems (q_array (push q x)) ! nat (slot f (alen (q_array (push q x))) j)"
        using fb' j L unfolding eq by (intro q_at_slot) (simp_all add: len2)
      have 2: "q_at q j = elems (q_array q) ! nat (slot f L j)"
        using fb' j unfolding L_def by (intro q_at_slot) (simp_all)
      have ne: "nat L \<noteq> nat j" using j by auto
      show ?thesis unfolding 1 2 using ne j b by (simp add: eq len2 el2 slot_def nth0)
    qed
    from n at L show ?thesis by (simp add: eq len2)
  qed
  from G show "nice (push q x)" by simp
  from G show "alen (q_array (push q x)) = 2 * alen (q_array q)" by (simp add: L_def)
  from G show "js_ge (q_backIndex (push q x)) (N 0)" by simp
  fix j assume "0 \<le> j" "j < q_size q"
  with G s show "q_at (push q x) j = q_at q j" by simp
qed

section \<open>Remove\<close>

lemma shift_front:
  assumes f: "q_frontIndex q = N f" "0 \<le> f" and i: "0 \<le> i" "f + i < alen (q_array q)"
    and s: "i < s" "s \<le> alen (q_array q)"
    and q': "q_frontIndex q' = N (f + 1)"
            "q_array q' = copyWithin (q_array q) (N (f + 1)) (N f) (N (f + i))"
    and j: "0 \<le> j" "j < s - 1"
  shows "q_at q' j = (if j < i then q_at q j else q_at q (j + 1))"
proof -
  define L where "L = alen (q_array q)"
  note a = f i s j
  have L': "alen (q_array q') = L" by (simp add: q' alen_copyWithin L_def)
  have 1: "q_at q' j = elems (q_array q') ! nat (slot (f + 1) L j)"
    using q_at_slot[of q' "f + 1" j] a q'(1) L' by (simp add: L_def)
  have 2: "q_at q k = elems (q_array q) ! nat (slot f L k)" if "0 \<le> k" "k < L" for k
    using q_at_slot[of q f k] a that by (simp add: L_def)
  have rg: "0 \<le> slot (f + 1) L j \<and> slot (f + 1) L j < L"
    using a by (intro slot_range) (auto simp: L_def)
  have 3: "elems (q_array q') ! nat k =
      (if f + 1 \<le> k \<and> k < f + 1 + (f + i - f) then elems (q_array q) ! nat (k - (f + 1) + f)
       else elems (q_array q) ! nat k)" if "0 \<le> k" "k < L" for k
    unfolding q'(2) using a that by (intro nth_copyWithin) (auto simp: L_def)
  show ?thesis
  proof (cases "j < i")
    case True
    with a have sl: "slot (f + 1) L j = f + 1 + j" "slot f L j = f + j"
      by (auto simp: slot_def L_def)
    from True a have "q_at q j = elems (q_array q) ! nat (f + j)"
      using 2[of j] sl by (simp add: L_def)
    moreover from True a have "elems (q_array q') ! nat (f + 1 + j) = elems (q_array q) ! nat (f + j)"
      using 3[of "f + 1 + j"] by (simp add: L_def ac_simps)
    ultimately show ?thesis using True 1 sl by simp
  next
    case False
    with a have sl: "slot (f + 1) L j = slot f L (j + 1)"
      by (auto simp: slot_def L_def)
    from False a have out: "\<not> (f + 1 \<le> slot f L (j + 1) \<and> slot f L (j + 1) < f + 1 + (f + i - f))"
      by (auto simp: slot_def L_def split: if_splits)
    from a have "q_at q (j + 1) = elems (q_array q) ! nat (slot f L (j + 1))"
      using 2[of "j + 1"] by (simp add: L_def)
    moreover have "elems (q_array q') ! nat (slot f L (j + 1)) = elems (q_array q) ! nat (slot f L (j + 1))"
      using 3[of "slot f L (j + 1)"] rg out unfolding sl by auto
    ultimately show ?thesis using False 1 sl by simp
  qed
qed

lemma shift_back:
  assumes f: "q_frontIndex q = N f" "0 \<le> f" "f \<le> alen (q_array q)"
    and i: "0 \<le> i" "i < s" "s \<le> alen (q_array q)"
    and b: "b = slot f (alen (q_array q)) i + (s - 1 - i)" "b < alen (q_array q)"
    and q': "q_frontIndex q' = N f"
            "q_array q' = copyWithin (q_array q) (N (slot f (alen (q_array q)) i))
                            (N (slot f (alen (q_array q)) i + 1)) (N (b + 1))"
    and j: "0 \<le> j" "j < s - 1"
  shows "q_at q' j = (if j < i then q_at q j else q_at q (j + 1))"
proof -
  define L where "L = alen (q_array q)"
  define p where "p = slot f L i"
  note a = f i j b[folded L_def p_def]
  have L': "alen (q_array q') = L" by (simp add: q' alen_copyWithin L_def)
  have 1: "q_at q' j = elems (q_array q') ! nat (slot f L j)"
    using q_at_slot[of q' f j] a q'(1) L' by (simp add: L_def)
  have 2: "q_at q k = elems (q_array q) ! nat (slot f L k)" if "0 \<le> k" "k < L" for k
    using q_at_slot[of q f k] a that by (simp add: L_def)
  have p: "0 \<le> p" "p < L" using slot_range[of f L i] a by (auto simp: p_def L_def)
  have rg: "0 \<le> slot f L j \<and> slot f L j < L"
    using a by (intro slot_range) (auto simp: L_def)
  have 3: "elems (q_array q') ! nat k =
      (if p \<le> k \<and> k < p + (b + 1 - (p + 1)) then elems (q_array q) ! nat (k - p + (p + 1))
       else elems (q_array q) ! nat k)" if "0 \<le> k" "k < L" for k
    unfolding q'(2) L_def[symmetric] p_def[symmetric] using a p that
    by (intro nth_copyWithin) (auto simp: L_def p_def)
  show ?thesis
  proof (cases "j < i")
    case True
    with a p have out: "\<not> (p \<le> slot f L j \<and> slot f L j < p + (b + 1 - (p + 1)))"
      by (auto simp: slot_def p_def L_def split: if_splits)
    from True a have "q_at q j = elems (q_array q) ! nat (slot f L j)"
      using 2[of j] by (simp add: L_def)
    moreover have "elems (q_array q') ! nat (slot f L j) = elems (q_array q) ! nat (slot f L j)"
      using 3[of "slot f L j"] rg out by auto
    ultimately show ?thesis using True 1 by simp
  next
    case False
    with a p have inside: "p \<le> slot f L j \<and> slot f L j < p + (b + 1 - (p + 1))"
      by (auto simp: slot_def p_def L_def split: if_splits)
    from False a p have sl: "slot f L j - p + (p + 1) = slot f L (j + 1)"
      by (auto simp: slot_def p_def L_def split: if_splits)
    from a have "q_at q (j + 1) = elems (q_array q) ! nat (slot f L (j + 1))"
      using 2[of "j + 1"] by (simp add: L_def)
    moreover have "elems (q_array q') ! nat (slot f L j) = elems (q_array q) ! nat (slot f L (j + 1))"
      using 3[of "slot f L j"] rg inside sl by auto
    ultimately show ?thesis using False 1 by simp
  qed
qed

lemma js_rem_slot:
  assumes "0 \<le> f" "f \<le> L" "0 \<le> j" "j < L"
  shows "js_rem (N (f + j)) (N L) = N (slot f L j)"
proof (cases "f + j < L")
  case True
  with assms show ?thesis by (simp add: slot_def js_rem_small)
next
  case False
  with assms have "js_rem (N (f + j)) (N L) = N (f + j - L)" by (intro js_rem_wrap) auto
  with False show ?thesis by (simp add: slot_def)
qed

lemma remove_absent: "at q i = Undefined \<Longrightarrow> remove q i = (Undefined, q)"
  by (simp add: remove_def)

lemma remove_nice:
  assumes "nice q" "0 \<le> i" "i < q_size q" "q_at q i \<noteq> Undefined"
  shows "nice (snd (remove q i))"
    and "fst (remove q i) = q_at q i"
    and "q_size (snd (remove q i)) = q_size q - 1"
    and "\<And>j. 0 \<le> j \<Longrightarrow> j < q_size q - 1 \<Longrightarrow>
           q_at (snd (remove q i)) j = (if j < i then q_at q j else q_at q (j + 1))"
proof -
  from assms(1) obtain f b where fb: "q_frontIndex q = N f" "q_backIndex q = N b"
    "0 < alen (q_array q)" "0 \<le> q_size q" "q_size q \<le> alen (q_array q)"
    "0 \<le> f" "f \<le> alen (q_array q)" "- 1 \<le> b" "b < alen (q_array q)"
    "b = f + max (q_size q) 1 - 1 \<or> b = f + max (q_size q) 1 - 1 - alen (q_array q)"
    "\<not> (f = alen (q_array q) \<and> b = - 1)"
    by (rule niceE)
  define L where "L = alen (q_array q)"
  define s where "s = q_size q"
  define p where "p = slot f L i"
  note fb' = fb[folded L_def s_def]
  have i: "0 \<le> i" "i < s" "i < L" using assms(2,3) fb' by (auto simp: s_def)
  have item: "at q i = q_at q i" using assms(2,3) by (simp add: at_def)
  have rem: "js_rem (N (f + i)) (N (alen (q_array q))) = N p"
    unfolding p_def L_def[symmetric] using fb' i by (intro js_rem_slot) auto
  have p: "0 \<le> p" "p < L" using slot_range[of f L i] fb' i by (auto simp: p_def)
  let ?P = "\<lambda>q'. nice q' \<and> q_size q' = s - 1 \<and>
     (\<forall>j. 0 \<le> j \<and> j < s - 1 \<longrightarrow> q_at q' j = (if j < i then q_at q j else q_at q (j + 1)))"
  have G: "\<exists>q'. remove q i = (q_at q i, q') \<and> ?P q'"
  proof (cases "s > 1")
    case False
    with i have s1: "s = 1" "i = 0" by auto
    have eq: "remove q i = (q_at q i, q\<lparr>q_size := 0\<rparr>)"
      using assms(4) s1 item by (simp add: remove_def s_def)
    have "nice (q\<lparr>q_size := 0\<rparr>)"
      using fb s1 by (intro niceI[where f=f and b=b]) (auto simp: s_def)
    with eq s1 show ?thesis by auto
  next
    case s2: True
    show ?thesis
    proof (cases "b \<ge> f")
      case bf: True
      with fb' s2 have b: "b = f + s - 1" by (auto simp: max_def)
      with fb' i have pf: "p = f + i" by (simp add: p_def slot_def)
      show ?thesis
      proof (cases "2 * p < f + b")
        case True
        define q' where "q' = q\<lparr>q_array := copyWithin (q_array q) (N (f + 1)) (N f) (N p),
                                 q_frontIndex := N (f + 1), q_size := s - 1\<rparr>"
        have eq: "remove q i = (q_at q i, q')"
          using assms(4) item s2 bf True fb(1,2) rem
          by (simp add: remove_def s_def Let_def q'_def)
        have n: "nice q'"
          unfolding q'_def using fb' s2 b
          by (intro niceI[where f="f + 1" and b=b]) (auto simp: alen_copyWithin L_def[symmetric] max_def)
        have "q_at q' j = (if j < i then q_at q j else q_at q (j + 1))" if "0 \<le> j" "j < s - 1" for j
          using fb' i that pf b
          by (intro shift_front[where f=f and s=s]) (auto simp: q'_def L_def)
        with n eq show ?thesis by (auto simp: q'_def)
      next
        case False
        define q' where "q' = q\<lparr>q_array := copyWithin (q_array q) (N p) (N (p + 1)) (N (b + 1)),
                                 q_backIndex := N (b - 1), q_size := s - 1\<rparr>"
        have eq: "remove q i = (q_at q i, q')"
          using assms(4) item s2 bf False fb(1,2) rem
          by (simp add: remove_def s_def Let_def q'_def)
        have n: "nice q'"
          unfolding q'_def using fb' s2 b bf
          by (intro niceI[where f=f and b="b - 1"]) (auto simp: alen_copyWithin L_def[symmetric] max_def)
        have "q_at q' j = (if j < i then q_at q j else q_at q (j + 1))" if "0 \<le> j" "j < s - 1" for j
          using fb' i that pf b
          by (intro shift_back[where f=f and s=s and b=b]) (auto simp: q'_def L_def p_def)
        with n eq show ?thesis by (auto simp: q'_def)
      qed
    next
      case bf: False
      with fb' s2 have b: "b = f + s - 1 - L" by (auto simp: max_def)
      show ?thesis
      proof (cases "p \<ge> f")
        case True
        with fb' i p have pf: "p = f + i" "f + i < L" by (auto simp: p_def slot_def split: if_splits)
        define q' where "q' = q\<lparr>q_array := copyWithin (q_array q) (N (f + 1)) (N f) (N p),
                                 q_frontIndex := N (f + 1), q_size := s - 1\<rparr>"
        have eq: "remove q i = (q_at q i, q')"
          using assms(4) item s2 bf True fb(1,2) rem
          by (simp add: remove_def s_def Let_def q'_def)
        have n: "nice q'"
          unfolding q'_def using fb' s2 b pf i
          by (intro niceI[where f="f + 1" and b=b]) (auto simp: alen_copyWithin L_def[symmetric] max_def)
        have "q_at q' j = (if j < i then q_at q j else q_at q (j + 1))" if "0 \<le> j" "j < s - 1" for j
          using fb' i that pf b
          by (intro shift_front[where f=f and s=s]) (auto simp: q'_def L_def)
        with n eq show ?thesis by (auto simp: q'_def)
      next
        case False
        with fb' i p have pf: "p = f + i - L" "L \<le> f + i" by (auto simp: p_def slot_def split: if_splits)
        define q' where "q' = q\<lparr>q_array := copyWithin (q_array q) (N p) (N (p + 1)) (N (b + 1)),
                                 q_backIndex := N (b - 1), q_size := s - 1\<rparr>"
        have eq: "remove q i = (q_at q i, q')"
          using assms(4) item s2 bf False fb(1,2) rem
          by (simp add: remove_def s_def Let_def q'_def)
        have n: "nice q'"
          unfolding q'_def using fb' s2 b pf i
          by (intro niceI[where f=f and b="b - 1"]) (auto simp: alen_copyWithin L_def[symmetric] max_def)
        have "q_at q' j = (if j < i then q_at q j else q_at q (j + 1))" if "0 \<le> j" "j < s - 1" for j
          using fb' i that pf b
          by (intro shift_back[where f=f and s=s and b=b]) (auto simp: q'_def L_def p_def)
        with n eq show ?thesis by (auto simp: q'_def)
      qed
    qed
  qed
  then obtain q' where q': "remove q i = (q_at q i, q')" "?P q'" by blast
  from q' show "nice (snd (remove q i))" by simp
  from q' show "fst (remove q i) = q_at q i" by simp
  from q' show "q_size (snd (remove q i)) = q_size q - 1" by (simp add: s_def)
  fix j assume "0 \<le> j" "j < q_size q - 1"
  with q' show "q_at (snd (remove q i)) j = (if j < i then q_at q j else q_at q (j + 1))"
    by (simp add: s_def)
qed

section \<open>The store of length 0, and all reachable states\<close>

lemma q_size_push: "q_size (push q x) = q_size q + 1"
  by (simp add: push_def push_with_def Let_def q_expand_def)

lemma push_nice:
  assumes "nice q"
  shows "nice (push q x)"
    and "\<And>j. 0 \<le> j \<Longrightarrow> j < q_size q \<Longrightarrow> q_at (push q x) j = q_at q j"
proof -
  consider "q_size q = 0" | "q_size q \<noteq> 0" "q_size q \<noteq> alen (q_array q)"
    | "q_size q \<noteq> 0" "q_size q = alen (q_array q)" by blast
  then show "nice (push q x)"
    using assms push_nice_empty(1) push_nice_room(1) push_nice_full(1) by cases blast+
  fix j assume j: "0 \<le> j" "j < q_size q"
  then have "q_size q \<noteq> 0" by auto
  with assms j show "q_at (push q x) j = q_at q j"
    using push_nice_room(2)[of q j x] push_nice_full(2)[of q j x] by blast
qed

lemma q_at_degenerate: "alen (q_array q) = 0 \<Longrightarrow> q_at q j = props (q_array q) NaN"
  by (simp add: q_at_def js_rem_zero aget.simps)

lemma alen_aset_NaN: "alen (aset a NaN v) = alen a"
  by (simp add: aset.simps alen_def)

lemma push_degenerate:
  assumes "degenerate q"
  shows "inv (push q x)"
proof -
  from assms have L: "alen (q_array q) = 0" and s: "0 \<le> q_size q"
    by (auto simp: degenerate_def)
  from assms consider
      (A) "q_backIndex q = N 0" "q_frontIndex q = N 0" "q_size q = 0"
    | (B) "q_backIndex q = N (- 1)" "q_frontIndex q = N 0" "q_size q \<le> 1"
          "props (q_array q) NaN = Undefined"
    | (C) "q_backIndex q = NaN" "q_frontIndex q = N 0 \<or> q_frontIndex q = NaN"
    by (auto simp: degenerate_def)
  then show ?thesis
  proof cases
    case A
    have el: "elems (aset (q_array q) (N 0) x) = [x]"
      using L by (simp add: aset.simps alen_def)
    have "nice (push q x)"
      using A el by (intro niceI[where f=0 and b=0]) (simp_all add: push_empty alen_def)
    then show ?thesis by (simp add: inv_def)
  next
    case B
    show ?thesis
    proof (cases "q_size q = 0")
      case True
      with B L have "degenerate (push q x)"
        by (simp add: push_empty degenerate_def aset.simps alen_def)
      then show ?thesis by (simp add: inv_def)
    next
      case False
      with B s L have "degenerate (push q x)"
        by (simp add: push_room degenerate_def js_rem_zero alen_aset_NaN)
      then show ?thesis by (simp add: inv_def)
    qed
  next
    case C
    show ?thesis
    proof (cases "q_size q = 0")
      case True
      with C L have "degenerate (push q x)"
        by (auto simp: push_empty degenerate_def alen_aset_NaN)
      then show ?thesis by (simp add: inv_def)
    next
      case False
      with C s L have "degenerate (push q x)"
        by (auto simp: push_room degenerate_def js_rem_zero alen_aset_NaN)
      then show ?thesis by (simp add: inv_def)
    qed
  qed
qed

lemma pop_degenerate:
  assumes "degenerate q"
  shows "degenerate (snd (pop q))"
  using assms by (auto simp: degenerate_def pop_def Let_def js_rem_zero)

lemma clear_inv: "inv q \<Longrightarrow> inv (clear q)"
proof -
  assume "inv q"
  then consider "nice q" | "degenerate q" by (auto simp: inv_def)
  then show ?thesis
  proof cases
    case 1
    then have "nice (clear q)"
      by (elim niceE, intro niceI[where f=0 and b=0]) (simp_all add: clear_def)
    then show ?thesis by (simp add: inv_def)
  next
    case 2
    then have "degenerate (clear q)" by (simp add: degenerate_def clear_def)
    then show ?thesis by (simp add: inv_def)
  qed
qed

lemma remove_degenerate:
  assumes "degenerate q" "0 \<le> i" "i < q_size q" "q_at q i \<noteq> Undefined"
  shows "degenerate (snd (remove q i))"
    and "fst (remove q i) = q_at q i"
    and "q_size (snd (remove q i)) = q_size q - 1"
    and "\<And>j. q_at (snd (remove q i)) j = q_at q (j + 1)"
    and "\<And>j. q_at q j = q_at q i"
proof -
  from assms(1) have L: "alen (q_array q) = 0" by (simp add: degenerate_def)
  have pr: "props (q_array q) NaN \<noteq> Undefined"
    using assms(4) L by (simp add: q_at_degenerate)
  with assms(1,2,3) have C: "q_backIndex q = NaN" "q_frontIndex q = N 0 \<or> q_frontIndex q = NaN"
    by (auto simp: degenerate_def)
  have item: "at q i = q_at q i" using assms(2,3) by (simp add: at_def)
  define q' where "q' = (if q_size q > 1
     then q\<lparr>q_array := copyWithin (q_array q) NaN NaN NaN, q_backIndex := NaN,
            q_size := q_size q - 1\<rparr>
     else q\<lparr>q_size := q_size q - 1\<rparr>)"
  have eq: "remove q i = (q_at q i, q')"
    using assms(4) item C L by (auto simp: remove_def Let_def q'_def js_rem_zero)
  have L': "alen (q_array q') = 0" by (simp add: q'_def alen_copyWithin L)
  have P': "props (q_array q') NaN = props (q_array q) NaN" by (simp add: q'_def props_copyWithin)
  show "degenerate (snd (remove q i))"
    using C assms(2,3) L' unfolding eq by (auto simp: degenerate_def q'_def)
  show "fst (remove q i) = q_at q i" by (simp add: eq)
  show "q_size (snd (remove q i)) = q_size q - 1" by (simp add: eq q'_def)
  show "\<And>j. q_at (snd (remove q i)) j = q_at q (j + 1)"
    by (simp add: eq q_at_degenerate L L' P')
  show "\<And>j. q_at q j = q_at q i" by (simp add: q_at_degenerate L)
qed

lemma pop_empty: "q_size q = 0 \<Longrightarrow> pop q = (Undefined, q)"
  by (simp add: pop_def)

lemma pop_nice:
  assumes "nice q" "q_size q \<noteq> 0"
  shows "nice (snd (pop q))"
    and "q_size (snd (pop q)) = q_size q - 1"
    and "\<And>j. 0 \<le> j \<Longrightarrow> j < q_size q - 1 \<Longrightarrow> q_at (snd (pop q)) j = q_at q (j + 1)"
    and "fst (pop q) = aget (q_array q) (q_frontIndex q)"
    and "q_backIndex (snd (pop q)) = q_backIndex q"
    and "js_lt (q_frontIndex q) (N (alen (q_array q))) \<Longrightarrow>
         js_lt (q_frontIndex (snd (pop q))) (N (alen (q_array (snd (pop q)))))"
proof -
  from assms(1) obtain f b where fb: "q_frontIndex q = N f" "q_backIndex q = N b"
    "0 < alen (q_array q)" "0 \<le> q_size q" "q_size q \<le> alen (q_array q)"
    "0 \<le> f" "f \<le> alen (q_array q)" "- 1 \<le> b" "b < alen (q_array q)"
    "b = f + max (q_size q) 1 - 1 \<or> b = f + max (q_size q) 1 - 1 - alen (q_array q)"
    "\<not> (f = alen (q_array q) \<and> b = - 1)"
    by (rule niceE)
  define L where "L = alen (q_array q)"
  define s where "s = q_size q"
  define f1 where "f1 = (if s > 1 then slot f L 1 else f)"
  note fb' = fb[folded L_def s_def]
  have s: "0 < s" using fb' assms(2) by (simp add: s_def)
  have rem: "js_rem (N (f + 1)) (N (alen (q_array q))) = N (slot f L 1)" if "s > 1"
    unfolding L_def[symmetric] using fb' that by (intro js_rem_slot) auto
  have eq: "pop q = (aget (q_array q) (N f), q\<lparr>q_frontIndex := N f1, q_size := s - 1\<rparr>)"
  proof (cases "s > 1")
    case True
    with rem fb(1) assms(2) show ?thesis
      by (simp add: pop_def Let_def f1_def s_def)
  next
    case False
    with fb(1) assms(2) show ?thesis
      by (simp add: pop_def Let_def f1_def s_def)
  qed
  have f1: "0 \<le> f1" "f1 \<le> L" "s > 1 \<Longrightarrow> f1 < L"
    using fb' by (auto simp: f1_def slot_def)
  show "nice (snd (pop q))"
    unfolding eq using fb' s f1
    by (intro niceI[where f=f1 and b=b])
       (auto simp: L_def[symmetric] f1_def slot_def max_def split: if_splits)
  show "q_size (snd (pop q)) = q_size q - 1" by (simp add: eq s_def)
  show "fst (pop q) = aget (q_array q) (q_frontIndex q)" by (simp add: eq fb(1))
  show "q_backIndex (snd (pop q)) = q_backIndex q" by (simp add: eq)
  show "js_lt (q_frontIndex (snd (pop q))) (N (alen (q_array (snd (pop q)))))"
    if "js_lt (q_frontIndex q) (N (alen (q_array q)))"
    using that fb' f1 by (auto simp: eq fb(1) L_def[symmetric] f1_def)
  fix j assume j: "0 \<le> j" "j < q_size q - 1"
  then have s2: "s > 1" by (simp add: s_def)
  have 1: "q_at (snd (pop q)) j = elems (q_array q) ! nat (slot f1 L j)"
    using q_at_slot[of "snd (pop q)" f1 j] f1 j fb' s2 by (simp add: eq L_def s_def)
  have 2: "q_at q (j + 1) = elems (q_array q) ! nat (slot f L (j + 1))"
    using q_at_slot[of q f "j + 1"] j fb' by (simp add: L_def s_def)
  have "slot f1 L j = slot f L (j + 1)"
    using s2 j fb' by (auto simp: f1_def slot_def s_def split: if_splits)
  with 1 2 show "q_at (snd (pop q)) j = q_at q (j + 1)" by simp
qed

lemma pop_inv: "inv q \<Longrightarrow> inv (snd (pop q))"
  using pop_nice(1)[of q] pop_degenerate[of q] pop_empty[of q]
  by (cases "q_size q = 0") (auto simp: inv_def)

lemma push_inv: "inv q \<Longrightarrow> inv (push q x)"
  using push_nice(1)[of q x] push_degenerate[of q x] by (auto simp: inv_def)

lemma remove_inv: "inv q \<Longrightarrow> inv (snd (remove q i))"
proof (cases "at q i = Undefined")
  case True
  assume "inv q"
  with True show ?thesis by (simp add: remove_absent)
next
  case False
  assume a: "inv q"
  from False have i: "0 \<le> i" "i < q_size q" "q_at q i \<noteq> Undefined"
    by (auto simp: at_def split: if_splits)
  with a show ?thesis
    using remove_nice(1)[of q i] remove_degenerate(1)[of q i] by (auto simp: inv_def)
qed

lemma exec_inv: "inv q \<Longrightarrow> inv (exec c q)"
  by (cases c) (simp_all add: push_inv pop_inv remove_inv clear_inv)

lemma run_inv: "inv q \<Longrightarrow> inv (run cs q)"
  unfolding run_def by (induction cs arbitrary: q) (simp_all add: exec_inv)

lemma Queue_inv: "Queue arg = Inr q \<Longrightarrow> inv q"
proof (cases arg)
  case (Iterable xs)
  assume "Queue arg = Inr q"
  with Iterable have q: "q = \<lparr>q_array = Array_from xs, q_size = int (length xs),
      q_backIndex = N (int (length xs) - 1), q_frontIndex = N 0\<rparr>"
    by (simp add: Queue_def)
  show ?thesis
  proof (cases "xs = []")
    case True
    with q have "degenerate q" by (simp add: degenerate_def Array_from_def alen_def)
    then show ?thesis by (simp add: inv_def)
  next
    case False
    then have "0 < length xs" by simp
    then have "1 \<le> int (length xs)" by linarith
    then have "max (int (length xs)) 1 = int (length xs)" by (rule max_absorb1)
    with q \<open>0 < length xs\<close> have "nice q"
      by (intro niceI[where f=0 and b="int (length xs) - 1"])
         (simp_all add: Array_from_def alen_def)
    then show ?thesis by (simp add: inv_def)
  qed
next
  case (Capacity n)
  assume "Queue arg = Inr q"
  with Capacity have n: "0 \<le> n" and q: "q = \<lparr>q_array = \<lparr>elems = replicate (nat n) Undefined, props = (\<lambda>_. Undefined)\<rparr>,
      q_size = 0, q_backIndex = N 0, q_frontIndex = N 0\<rparr>"
    by (auto simp: Queue_def empty_queue_def new_Array_def split: if_splits)
  show ?thesis
  proof (cases "n = 0")
    case True
    with q have "degenerate q" by (simp add: degenerate_def alen_def)
    then show ?thesis by (simp add: inv_def)
  next
    case False
    with n q have "nice q"
      by (intro niceI[where f=0 and b=0]) (auto simp: alen_def)
    then show ?thesis by (simp add: inv_def)
  qed
next
  case NonInteger
  assume "Queue arg = Inr q"
  with NonInteger show ?thesis by (simp add: Queue_def)
next
  case Other
  assume "Queue arg = Inr q"
  with Other have q: "q = \<lparr>q_array = \<lparr>elems = replicate 8 Undefined, props = (\<lambda>_. Undefined)\<rparr>,
      q_size = 0, q_backIndex = N 0, q_frontIndex = N 0\<rparr>"
    by (auto simp: Queue_def empty_queue_def new_Array_def split: if_splits)
  then have "nice q"
    by (intro niceI[where f=0 and b=0]) (auto simp: alen_def)
  then show ?thesis by (simp add: inv_def)
qed

section \<open>Iteration\<close>

lemma length_iterate: "length (iterate q) = nat (q_size q)"
  by (simp add: iterate_def)

lemma nth_iterate: "k < nat (q_size q) \<Longrightarrow> iterate q ! k = q_at q (int k)"
  by (simp add: iterate_def)

lemma iterate_after_remove:
  assumes size: "q_size q' = q_size q - 1" and i: "0 \<le> i" "i < q_size q"
    and at: "\<And>j. 0 \<le> j \<Longrightarrow> j < q_size q - 1 \<Longrightarrow>
               q_at q' j = (if j < i then q_at q j else q_at q (j + 1))"
  shows "iterate q' = take (nat i) (iterate q) @ drop (nat i + 1) (iterate q)"
proof (rule nth_equalityI)
  show "length (iterate q') = length (take (nat i) (iterate q) @ drop (nat i + 1) (iterate q))"
    using size i by (simp add: length_iterate)
  fix k assume "k < length (iterate q')"
  then have k: "k < nat (q_size q - 1)" by (simp add: length_iterate size)
  then have l: "iterate q' ! k = (if int k < i then q_at q (int k) else q_at q (int k + 1))"
    using at[of "int k"] by (simp add: nth_iterate size)
  show "iterate q' ! k = (take (nat i) (iterate q) @ drop (nat i + 1) (iterate q)) ! k"
  proof (cases "int k < i")
    case True
    then have "k < nat i" by simp
    with k i True show ?thesis
      unfolding l by (simp add: nth_append length_iterate nth_iterate)
  next
    case False
    then have nk: "\<not> k < nat i" by simp
    have len: "length (take (nat i) (iterate q)) = nat i"
      using i by (simp add: length_iterate)
    have "(take (nat i) (iterate q) @ drop (nat i + 1) (iterate q)) ! k
        = drop (nat i + 1) (iterate q) ! (k - nat i)"
      using nk by (simp add: nth_append len del: length_take)
    also have "\<dots> = iterate q ! (k + 1)"
      using nk k i by (simp add: length_iterate)
    also have "\<dots> = q_at q (int k + 1)"
      using k by (simp add: nth_iterate add.commute)
    finally show ?thesis using False l by simp
  qed
qed

text \<open>
  Removal of an element that is not \<open>Undefined\<close>, in every state that calls produce
  from a constructed queue: \<open>remove i\<close> returns the element at \<open>i\<close>, the size drops
  by one, the elements before \<open>i\<close> keep their positions and every element after \<open>i\<close>
  is one position earlier. This covers the four branches of \<open>remove\<close>: a window that
  does not wrap, shifted from the front or from the back, and a window that wraps,
  with the target at or after the front slot or before the wrap point.
\<close>

lemma remove_keeps_order:
  assumes "Queue arg = Inr q0" and "q = run calls q0"
    and "0 \<le> i" and "i < q_size q" and "at q i \<noteq> Undefined"
  shows "fst (remove q i) = at q i \<and> q_size (snd (remove q i)) = q_size q - 1 \<and>
         (\<forall>j. 0 \<le> j \<and> j < i \<longrightarrow> at (snd (remove q i)) j = at q j) \<and>
         (\<forall>j. i \<le> j \<and> j < q_size q - 1 \<longrightarrow> at (snd (remove q i)) j = at q (j + 1)) \<and>
         iterate (snd (remove q i)) = take (nat i) (iterate q) @ drop (nat i + 1) (iterate q)"
proof -
  from assms(1,2) have "inv q" by (simp add: Queue_inv run_inv)
  from assms(3-5) have item: "at q i = q_at q i" "q_at q i \<noteq> Undefined"
    by (simp_all add: at_def)
  have r: "fst (remove q i) = q_at q i \<and> q_size (snd (remove q i)) = q_size q - 1 \<and>
      (\<forall>j. 0 \<le> j \<and> j < q_size q - 1 \<longrightarrow>
           q_at (snd (remove q i)) j = (if j < i then q_at q j else q_at q (j + 1)))"
  proof (cases "nice q")
    case True
    with assms(3,4) item(2) show ?thesis
      using remove_nice(2,3,4)[of q i] by simp
  next
    case False
    with \<open>inv q\<close> have "degenerate q" by (simp add: inv_def)
    with assms(3,4) item(2) show ?thesis
      using remove_degenerate(2,3,4,5)[of q i] by metis
  qed
  then have size: "q_size (snd (remove q i)) = q_size q - 1"
    and at: "\<And>j. 0 \<le> j \<Longrightarrow> j < q_size q - 1 \<Longrightarrow>
       q_at (snd (remove q i)) j = (if j < i then q_at q j else q_at q (j + 1))"
    by simp_all
  from size assms(3,4) at
  have "iterate (snd (remove q i)) = take (nat i) (iterate q) @ drop (nat i + 1) (iterate q)"
    by (rule iterate_after_remove)
  moreover have "\<forall>j. 0 \<le> j \<and> j < i \<longrightarrow> at (snd (remove q i)) j = at q j"
    using at assms(4) by (simp add: at_def size)
  moreover have "\<forall>j. i \<le> j \<and> j < q_size q - 1 \<longrightarrow> at (snd (remove q i)) j = at q (j + 1)"
    using at assms(3) by (simp add: at_def size)
  ultimately show ?thesis using r item by simp
qed

section \<open>Queues that are only pushed and popped\<close>

lemma js_gt_NaN: "js_gt x NaN = False"
  by (cases x) simp_all

lemma q_frontIndex_push: "q_frontIndex (push q x) = q_frontIndex q"
  by (simp add: push_def push_with_def Let_def q_expand_def js_gt_NaN)

lemma aget_aset_same: "aget (aset a k v) k = v"
proof (cases k)
  case NaN
  then show ?thesis by (simp add: aget.simps aset.simps)
next
  case (N i)
  consider "0 \<le> i" "i < alen a" | "alen a \<le> i" | "i < 0" by linarith
  then show ?thesis
  proof cases
    case 1
    then show ?thesis unfolding N by (simp add: aget.simps aset.simps alen_def)
  next
    case 2
    have "0 \<le> i" using 2 alen_nonneg[of a] by linarith
    have len: "length (elems a @ replicate (nat i - length (elems a)) Undefined) = nat i"
      using 2 by (simp add: alen_def)
    have "(elems a @ replicate (nat i - length (elems a)) Undefined @ [v]) ! nat i = v"
      using nth_append_length[of "elems a @ replicate (nat i - length (elems a)) Undefined" v "[]"]
      unfolding len by simp
    with 2 \<open>0 \<le> i\<close> show ?thesis
      unfolding N by (simp add: aget.simps aset.simps alen_def)
  next
    case 3
    then show ?thesis unfolding N by (simp add: aget.simps aset.simps alen_def)
  qed
qed

lemma aget_back_push: "aget (q_array (push q x)) (q_backIndex (push q x)) = x"
  by (simp add: push_def push_with_def Let_def aget_aset_same)

lemma properE:
  assumes "proper q"
  obtains f b where "q_frontIndex q = N f" "q_backIndex q = N b" "nice q"
    "0 \<le> f" "f < alen (q_array q)" "0 \<le> b" "b < alen (q_array q)"
    "0 \<le> q_size q" "q_size q \<le> alen (q_array q)"
    "b = f + max (q_size q) 1 - 1 \<or> b = f + max (q_size q) 1 - 1 - alen (q_array q)"
proof -
  from assms have n: "nice q" by (simp add: proper_def)
  then obtain f b where fb: "q_frontIndex q = N f" "q_backIndex q = N b"
    "0 < alen (q_array q)" "0 \<le> q_size q" "q_size q \<le> alen (q_array q)"
    "0 \<le> f" "f \<le> alen (q_array q)" "- 1 \<le> b" "b < alen (q_array q)"
    "b = f + max (q_size q) 1 - 1 \<or> b = f + max (q_size q) 1 - 1 - alen (q_array q)"
    by (rule niceE)
  with assms have "f < alen (q_array q)" "0 \<le> b" by (simp_all add: proper_def)
  with fb n that show ?thesis by blast
qed

lemma back_is_last:
  assumes "proper q" "q_size q \<noteq> 0"
  shows "q_at q (q_size q - 1) = aget (q_array q) (q_backIndex q)"
proof -
  from assms(1) obtain f b where fb: "q_frontIndex q = N f" "q_backIndex q = N b" "nice q"
    "0 \<le> f" "f < alen (q_array q)" "0 \<le> b" "b < alen (q_array q)"
    "0 \<le> q_size q" "q_size q \<le> alen (q_array q)"
    "b = f + max (q_size q) 1 - 1 \<or> b = f + max (q_size q) 1 - 1 - alen (q_array q)"
    by (rule properE)
  have "slot f (alen (q_array q)) (q_size q - 1) = b"
    using fb assms(2) by (auto simp: slot_def max_def split: if_splits)
  moreover have "q_at q (q_size q - 1) = elems (q_array q) ! nat (slot f (alen (q_array q)) (q_size q - 1))"
    using fb assms(2) by (intro q_at_slot) auto
  ultimately show ?thesis using fb by (simp add: aget_in)
qed

lemma front_is_first:
  assumes "proper q"
  shows "q_at q 0 = aget (q_array q) (q_frontIndex q)"
proof -
  from assms(1) obtain f b where fb: "q_frontIndex q = N f" "q_backIndex q = N b" "nice q"
    "0 \<le> f" "f < alen (q_array q)" "0 \<le> b" "b < alen (q_array q)"
    "0 \<le> q_size q" "q_size q \<le> alen (q_array q)"
    "b = f + max (q_size q) 1 - 1 \<or> b = f + max (q_size q) 1 - 1 - alen (q_array q)"
    by (rule properE)
  have "q_at q 0 = elems (q_array q) ! nat (slot f (alen (q_array q)) 0)"
    using fb by (intro q_at_slot) auto
  with fb show ?thesis by (simp add: slot_def aget_in)
qed

lemma proper_push:
  assumes "proper q"
  shows "proper (push q x)" and "iterate (push q x) = iterate q @ [x]"
proof -
  from assms have n: "nice q" and fl: "js_lt (q_frontIndex q) (N (alen (q_array q)))"
    and bg: "js_ge (q_backIndex q) (N 0)" by (simp_all add: proper_def)
  from n have s0: "0 \<le> q_size q" by (elim niceE)
  have n': "nice (push q x)" using n by (rule push_nice(1))
  have len: "alen (q_array q) \<le> alen (q_array (push q x))"
    using push_nice_empty(2)[OF n, of x] push_nice_room(3)[OF n, of x] push_nice_full(3)[OF n, of x]
      alen_nonneg[of "q_array q"]
    by (cases "q_size q = 0"; cases "q_size q = alen (q_array q)") auto
  have bk: "js_ge (q_backIndex (push q x)) (N 0)"
    using push_nice_empty(3)[OF n, of x] push_nice_room(4)[OF n, of x] push_nice_full(4)[OF n, of x] bg
    by (cases "q_size q = 0"; cases "q_size q = alen (q_array q)") auto
  have frnt: "js_lt (q_frontIndex (push q x)) (N (alen (q_array (push q x))))"
    using fl len by (cases "q_frontIndex q") (simp_all add: q_frontIndex_push)
  from n' bk frnt show p': "proper (push q x)" by (simp add: proper_def)
  have last: "q_at (push q x) (q_size q) = x"
    using back_is_last[OF p'] s0 by (simp add: q_size_push aget_back_push)
  have "iterate (push q x) = map (\<lambda>i. q_at (push q x) (int i)) [0..<nat (q_size q)] @ [x]"
    using s0 last by (simp add: iterate_def q_size_push nat_add_distrib)
  also have "map (\<lambda>i. q_at (push q x) (int i)) [0..<nat (q_size q)] = iterate q"
    unfolding iterate_def using push_nice(2)[OF n] by (intro map_cong) auto
  finally show "iterate (push q x) = iterate q @ [x]" .
qed

lemma proper_pop:
  assumes "proper q" "q_size q \<noteq> 0"
  shows "proper (snd (pop q))" and "fst (pop q) = hd (iterate q)"
    and "iterate (snd (pop q)) = tl (iterate q)"
proof -
  from assms have n: "nice q" and fl: "js_lt (q_frontIndex q) (N (alen (q_array q)))"
    and bg: "js_ge (q_backIndex q) (N 0)" by (simp_all add: proper_def)
  from n have s0: "0 \<le> q_size q" by (elim niceE)
  with assms(2) have s: "0 < q_size q" by simp
  show "proper (snd (pop q))"
    using pop_nice(1,5,6)[OF n assms(2)] fl bg by (simp add: proper_def)
  have "fst (pop q) = q_at q 0"
    using pop_nice(4)[OF n assms(2)] front_is_first[OF assms(1)] by simp
  also have "\<dots> = hd (iterate q)"
    using s by (simp add: iterate_def hd_map upt_conv_Cons)
  finally show "fst (pop q) = hd (iterate q)" .
  show "iterate (snd (pop q)) = tl (iterate q)"
  proof (rule nth_equalityI)
    show "length (iterate (snd (pop q))) = length (tl (iterate q))"
      using pop_nice(2)[OF n assms(2)] by (simp add: length_iterate)
    fix k assume "k < length (iterate (snd (pop q)))"
    then have k: "k < nat (q_size q - 1)"
      using pop_nice(2)[OF n assms(2)] by (simp add: length_iterate)
    then have "iterate (snd (pop q)) ! k = q_at q (int k + 1)"
      using pop_nice(2,3)[OF n assms(2)] by (simp add: nth_iterate)
    moreover from k have "tl (iterate q) ! k = q_at q (int k + 1)"
      by (simp add: nth_tl length_iterate nth_iterate add.commute)
    ultimately show "iterate (snd (pop q)) ! k = tl (iterate q) ! k" by simp
  qed
qed

lemma results_fifo:
  "proper q \<Longrightarrow> fifo_calls cs (length (iterate q)) \<Longrightarrow>
   results cs q = take (length (results cs q)) (iterate q @ pushed cs)"
proof (induction cs arbitrary: q)
  case Nil
  then show ?case by simp
next
  case (Cons c cs)
  show ?case
  proof (cases c)
    case (Push x)
    with Cons.prems have "fifo_calls cs (length (iterate (push q x)))"
      by (simp add: proper_push(2))
    with Cons.IH[of "push q x"] Cons.prems(1) Push show ?thesis
      by (simp add: proper_push)
  next
    case Pop
    with Cons.prems have ne: "iterate q \<noteq> []" and f: "fifo_calls cs (length (iterate q) - 1)"
      by auto
    from ne have s: "q_size q \<noteq> 0" by (auto simp: iterate_def)
    from f have "fifo_calls cs (length (iterate (snd (pop q))))"
      by (simp add: proper_pop(3)[OF Cons.prems(1) s])
    with Cons.IH[of "snd (pop q)"] proper_pop[OF Cons.prems(1) s]
    have "results cs (snd (pop q)) =
        take (length (results cs (snd (pop q)))) (tl (iterate q) @ pushed cs)"
      by simp
    with ne Pop proper_pop(2)[OF Cons.prems(1) s] show ?thesis
      by (cases "iterate q") simp_all
  next
    case (Remove i)
    with Cons.prems show ?thesis by simp
  next
    case Clear
    with Cons.prems show ?thesis by simp
  qed
qed

lemma Queue_proper:
  assumes "0 < c" "Queue (Capacity c) = Inr q"
  shows "proper q" and "iterate q = []"
proof -
  from assms have q: "q = \<lparr>q_array = \<lparr>elems = replicate (nat c) Undefined, props = (\<lambda>_. Undefined)\<rparr>,
      q_size = 0, q_backIndex = N 0, q_frontIndex = N 0\<rparr>"
    by (auto simp: Queue_def empty_queue_def new_Array_def split: if_splits)
  with assms(1) have "nice q"
    by (intro niceI[where f=0 and b=0]) (auto simp: alen_def)
  with q assms(1) show "proper q" by (simp add: proper_def alen_def)
  from q show "iterate q = []" by (simp add: iterate_def)
qed

lemma pushed_pushes: "pushed (map Push xs @ replicate m Pop) = xs"
proof (induction xs)
  case Nil
  show ?case by (induction m) simp_all
next
  case (Cons x xs)
  then show ?case by simp
qed

lemma fifo_calls_pops: "m \<le> n \<Longrightarrow> fifo_calls (replicate m Pop) n"
  by (induction m arbitrary: n) auto

lemma fifo_calls_pushes: "m \<le> n + length xs \<Longrightarrow> fifo_calls (map Push xs @ replicate m Pop) n"
  by (induction xs arbitrary: n) (auto simp: fifo_calls_pops)

lemma length_results_pops: "length (results (replicate m Pop) q) = m"
  by (induction m arbitrary: q) simp_all

lemma length_results_pushes: "length (results (map Push xs @ replicate m Pop) q) = m"
  by (induction xs arbitrary: q) (simp_all add: length_results_pops)

section \<open>The tracker at concrete queues\<close>

text \<open>
  A constructor returns \<open>Inl\<close> of the error it throws or \<open>Inr\<close> of the new queue:
  \<open>isl\<close> holds of the first and \<open>projr\<close> takes the queue out of the second.
\<close>

text \<open>
  C1. \<open>position\<close> of a live element should be its logical index, the \<open>i\<close> with
  \<open>at i\<close> equal to the element. In a tracked queue of capacity 3, push 1, 2, 3, pop
  twice and push 4: the window wraps (front slot 2, back slot 0) and holds 3 and 4,
  so the queue is not full. The tracker has 4 at slot 0, and \<open>position\<close> adds the
  size 2, not the capacity 3, to \<open>0 - 2\<close>: it answers 0, where 3 is, instead of 1.
\<close>

theorem C1_position_wrong_when_wrapped_not_full:
  "\<not> isl (TrackerQueue (Capacity 3) (\<lambda>x. x) :: error + (nat, nat val) tracker_queue) \<and>
   (let q = t_run [Push (Val 1), Push (Val 2), Push (Val 3), Pop, Pop, Push (Val 4)]
              (projr (TrackerQueue (Capacity 3) (\<lambda>x. x) :: error + (nat, nat val) tracker_queue))
    in iterate q = [Val 3, Val 4] \<and> q_size q = 2 \<and> alen (q_array q) = 3 \<and>
       q_frontIndex q = N 2 \<and> q_backIndex q = N 0 \<and>
       q_tracker q (Val 4) = Some (N 0) \<and> aget (q_array q) (N 0) = Val 4 \<and>
       position q (Val 4) = N 0 \<and> at q 0 = Val 3 \<and> at q 1 = Val 4)"
  by code_simp

text \<open>
  C2. After \<open>remove\<close>, the tracker should hold, for every remaining element, the slot
  it is in. In the tracked queue built from 10, 20, 30, \<open>remove 1\<close> shifts the back
  portion: 30 moves from slot 2 to slot 1. The loop of \<open>t_remove\<close> rewrites the
  entries of the positions before 1 only, so the tracker still has 30 at slot 2, and
  \<open>position\<close> answers 2, which is no position of the queue of size 2.
\<close>

theorem C2_remove_back_shift_leaves_stale_slot:
  "\<not> isl (TrackerQueue (Iterable [Val 10, Val 20, Val 30]) (\<lambda>x. x)
            :: error + (nat, nat val) tracker_queue) \<and>
   (let q0 = projr (TrackerQueue (Iterable [Val 10, Val 20, Val 30]) (\<lambda>x. x)
                      :: error + (nat, nat val) tracker_queue);
        q = snd (t_remove q0 1)
    in fst (t_remove q0 1) = Val 20 \<and> iterate q = [Val 10, Val 30] \<and> q_size q = 2 \<and>
       q_frontIndex q = N 0 \<and> q_backIndex q = N 1 \<and>
       q_tracker q (Val 20) = None \<and> q_tracker q (Val 10) = Some (N 0) \<and>
       aget (q_array q) (N 1) = Val 30 \<and> q_tracker q (Val 30) = Some (N 2) \<and>
       position q (Val 30) = N 2 \<and> at q 1 = Val 30 \<and> at q 2 = Undefined)"
  by code_simp

text \<open>
  C3. After a growth inside \<open>push\<close>, the tracker should hold every live element's new
  slot. In a tracked queue of capacity 3, push 1, 2, 3, pop and push 4: the queue is
  full and wraps (front slot 1, back slot 0). Pushing 5 doubles the store and moves 4
  from slot 0 to slot 3. The loop of \<open>t_expand\<close> walks the slots 0, 1, 2 and not the
  live window 1, 2, 3: it records the stale copy of 4 at slot 0, and \<open>position\<close>
  answers 3 for 4, where 5 is.
\<close>

theorem C3_expand_tracks_stale_slot:
  "\<not> isl (TrackerQueue (Capacity 3) (\<lambda>x. x) :: error + (nat, nat val) tracker_queue) \<and>
   (let q0 = t_run [Push (Val 1), Push (Val 2), Push (Val 3), Pop, Push (Val 4)]
               (projr (TrackerQueue (Capacity 3) (\<lambda>x. x) :: error + (nat, nat val) tracker_queue));
        q = t_push q0 (Val 5)
    in q_size q0 = 3 \<and> alen (q_array q0) = 3 \<and> iterate q0 = [Val 2, Val 3, Val 4] \<and>
       alen (q_array q) = 6 \<and> iterate q = [Val 2, Val 3, Val 4, Val 5] \<and>
       q_frontIndex q = N 1 \<and> q_backIndex q = N 4 \<and>
       aget (q_array q) (N 3) = Val 4 \<and> q_tracker q (Val 4) = Some (N 0) \<and>
       position q (Val 4) = N 3 \<and> at q 2 = Val 4 \<and> at q 3 = Val 5)"
  by code_simp

section \<open>Growth\<close>

text \<open>
  C4. Let \<open>q\<close> be a state that some calls produce from a constructed queue, and let
  it be full: its size is the length of its store. Then a push keeps every element
  where \<open>at\<close> finds it: \<open>at i\<close> is unchanged for every position \<open>i\<close> of \<open>q\<close>. The
  push adds one element and doubles the store. The window of \<open>q\<close> may wrap at any slot;
  \<open>q_expand\<close> then always moves the part before the front slot behind the old end,
  since its test for the other move compares with NaN.
\<close>

theorem C4_growth_keeps_elements:
  assumes "Queue arg = Inr q0" and "q = run calls q0"
    and "q_size q = alen (q_array q)" and "0 \<le> i" and "i < q_size q"
  shows "at (push q x) i = at q i \<and> q_size (push q x) = q_size q + 1 \<and>
         alen (q_array (push q x)) = 2 * alen (q_array q)"
proof -
  from assms(1,2) have "inv q" by (simp add: Queue_inv run_inv)
  moreover from assms(3-5) have "\<not> degenerate q" by (auto simp: degenerate_def)
  ultimately have n: "nice q" by (simp add: inv_def)
  from assms(4,5) have s: "q_size q \<noteq> 0" by auto
  from n assms(4,5) have "q_at (push q x) i = q_at q i" by (rule push_nice(2))
  with assms(4,5) have "at (push q x) i = at q i" by (simp add: at_def q_size_push)
  moreover from n s assms(3) have "alen (q_array (push q x)) = 2 * alen (q_array q)"
    by (rule push_nice_full(3))
  ultimately show ?thesis by (simp add: q_size_push)
qed

theorem C4_growth_keeps_elements_witness:
  "Queue (Capacity 3) = Inr (projr (Queue (Capacity 3) :: error + nat queue)) \<and>
   (let q = run [Push (Val 1), Push (Val 2), Push (Val 3), Pop, Push (Val 4)]
              (projr (Queue (Capacity 3) :: error + nat queue))
    in q_size q = alen (q_array q) \<and> q_frontIndex q = N 1 \<and> q_backIndex q = N 0 \<and>
       0 \<le> (2::int) \<and> 2 < q_size q \<and>
       at (push q (Val 5)) 2 = at q 2 \<and> q_size (push q (Val 5)) = q_size q + 1 \<and>
       alen (q_array (push q (Val 5))) = 2 * alen (q_array q))"
proof -
  define q0 where "q0 = projr (Queue (Capacity 3) :: error + nat queue)"
  define q where "q = run [Push (Val 1), Push (Val 2), Push (Val 3), Pop, Push (Val 4)] q0"
  have c: "Queue (Capacity 3) = Inr q0"
    by (simp add: q0_def Queue_def empty_queue_def new_Array_def)
  have full: "q_size q = alen (q_array q)" unfolding q_def q0_def by code_simp
  have wrapped: "q_frontIndex q = N 1 \<and> q_backIndex q = N 0" unfolding q_def q0_def by code_simp
  have i: "0 \<le> (2::int)" "2 < q_size q" unfolding q_def q0_def by code_simp+
  from C4_growth_keeps_elements [OF c q_def full i, of "Val 5"] c full wrapped i
  show ?thesis unfolding Let_def q_def q0_def by blast
qed

section \<open>Removal\<close>

text \<open>
  C5. \<open>remove i\<close> should take the element at every valid position \<open>i\<close> out and
  leave the others in their order. In the queue built from \<open>Undefined\<close> and 1,
  position 0 is valid (\<open>0 < size = 2\<close>). \<open>remove\<close> does not test the index: it tests
  the value that \<open>at\<close> returns, and takes a stored \<open>Undefined\<close> for an index out of
  range. \<open>remove 0\<close> returns \<open>Undefined\<close> and leaves the queue as it was, of size 2
  and iterating as \<open>Undefined\<close>, 1, where the claim requires size 1 and the one
  element 1. \<open>pop\<close>, which tests the size, does take the same element out.
\<close>

theorem C5_stored_undefined_stays:
  "(0::int) < q_size (projr (Queue (Iterable [Undefined, Val 1]) :: error + nat queue)) \<and>
   iterate (projr (Queue (Iterable [Undefined, Val 1]) :: error + nat queue))
     = [Undefined, Val 1] \<and>
   fst (remove (projr (Queue (Iterable [Undefined, Val 1]) :: error + nat queue)) 0)
     = Undefined \<and>
   iterate (snd (remove (projr (Queue (Iterable [Undefined, Val 1]) :: error + nat queue)) 0))
     = [Undefined, Val 1] \<and>
   q_size (snd (remove (projr (Queue (Iterable [Undefined, Val 1]) :: error + nat queue)) 0)) = 2 \<and>
   fst (pop (projr (Queue (Iterable [Undefined, Val 1]) :: error + nat queue))) = Undefined \<and>
   iterate (snd (pop (projr (Queue (Iterable [Undefined, Val 1]) :: error + nat queue))))
     = [Val 1] \<and>
   q_size (snd (pop (projr (Queue (Iterable [Undefined, Val 1]) :: error + nat queue)))) = 1"
  by code_simp

section \<open>First in, first out\<close>

text \<open>
  C6. Take a queue constructed with a positive capacity \<open>c\<close> and any calls that are
  pushes and pops, where no pop finds the queue empty. The values that the pops
  return are, in order, the first of the values pushed: the \<open>k\<close>-th pop returns the
  \<open>k\<close>-th value pushed. In particular, pushing the values \<open>xs\<close> and popping as many
  times returns \<open>xs\<close>.
\<close>

theorem C6_fifo_order:
  assumes "0 < c" and "Queue (Capacity c) = Inr q0"
  shows "(fifo_calls cs 0 \<longrightarrow> results cs q0 = take (length (results cs q0)) (pushed cs)) \<and>
         results (map Push xs @ replicate (length xs) Pop) q0 = xs"
proof -
  from assms have p: "proper q0" and e: "iterate q0 = []" by (rule Queue_proper)+
  have general: "results cs q0 = take (length (results cs q0)) (pushed cs)"
    if "fifo_calls cs 0" for cs
    using results_fifo[OF p, of cs] that e by simp
  have "fifo_calls (map Push xs @ replicate (length xs) Pop) 0"
    by (rule fifo_calls_pushes) simp
  from general[OF this]
  have "results (map Push xs @ replicate (length xs) Pop) q0 = xs"
    by (simp add: length_results_pushes pushed_pushes)
  with general show ?thesis by blast
qed

theorem C6_fifo_order_witness:
  "(0::int) < 2 \<and> Queue (Capacity 2) = Inr (projr (Queue (Capacity 2) :: error + nat queue)) \<and>
   fifo_calls [Push (Val 1), Push (Val 2), Pop, Push (Val 3), Push (Val 4), Pop, Pop] 0 \<and>
   results [Push (Val 1), Push (Val 2), Pop, Push (Val 3), Push (Val 4), Pop, Pop]
     (projr (Queue (Capacity 2) :: error + nat queue)) = [Val 1, Val 2, Val 3] \<and>
   results (map Push [Val 1, Val 2, Val 3] @ replicate (length [Val 1, Val 2, Val (3::nat)]) Pop)
     (projr (Queue (Capacity 2) :: error + nat queue)) = [Val 1, Val 2, Val 3]"
proof -
  define q0 where "q0 = projr (Queue (Capacity 2) :: error + nat queue)"
  define cs :: "nat op list"
    where "cs = [Push (Val 1), Push (Val 2), Pop, Push (Val 3), Push (Val 4), Pop, Pop]"
  have c: "Queue (Capacity 2) = Inr q0"
    by (simp add: q0_def Queue_def empty_queue_def new_Array_def)
  have pos: "(0::int) < 2" by simp
  have f: "fifo_calls cs 0" by (simp add: cs_def)
  have l: "length (results cs q0) = 3" by (simp add: cs_def)
  have pu: "pushed cs = [Val 1, Val 2, Val 3, Val 4]" by (simp add: cs_def)
  from C6_fifo_order [OF pos c, of cs "[Val 1, Val 2, Val 3]"] f
  have "results cs q0 = take (length (results cs q0)) (pushed cs)"
    and "results (map Push [Val 1, Val 2, Val 3] @ replicate (length [Val 1, Val 2, Val (3::nat)]) Pop) q0
           = [Val 1, Val 2, Val 3]"
    by blast+
  with l pu pos c f show ?thesis unfolding q0_def cs_def by simp
qed

section \<open>The absent marker\<close>

text \<open>
  C7, as claimed: a stored value equal to the marker is treated as present. In the
  queue built from the one element \<open>Undefined\<close>, \<open>at 0\<close> gives what \<open>at 1\<close>, out of
  range, gives, and \<open>remove 0\<close> returns the marker and leaves the size at 1.
\<close>

theorem C7_stored_undefined_not_removed:
  "q_size (projr (Queue (Iterable [Undefined]) :: error + nat queue)) = 1 \<and>
   at (projr (Queue (Iterable [Undefined]) :: error + nat queue)) 0
     = at (projr (Queue (Iterable [Undefined]) :: error + nat queue)) 1 \<and>
   fst (remove (projr (Queue (Iterable [Undefined]) :: error + nat queue)) 0)
     = fst (remove (projr (Queue (Iterable [Undefined]) :: error + nat queue)) 1) \<and>
   q_size (snd (remove (projr (Queue (Iterable [Undefined]) :: error + nat queue)) 0)) = 1"
  by code_simp

text \<open>
  C7, amended: the marker is the value \<open>Undefined\<close>, which can also be stored. In
  every state \<open>q\<close> that calls produce from a constructed queue: out of range, \<open>at\<close>
  and \<open>remove\<close> return the marker and \<open>remove\<close> changes nothing; at a position \<open>i\<close>
  in range whose slot holds a value \<open>Val v\<close>, \<open>at\<close> returns \<open>Val v\<close>, which is not
  the marker, and \<open>remove i\<close> returns \<open>Val v\<close>, decrements the size and removes the
  element: the queue iterates as before without its entry \<open>i\<close>.
\<close>

theorem C7_marker_and_proper_values:
  assumes "Queue arg = Inr q0" and "q = run calls q0"
  shows "(\<not> (0 \<le> i \<and> i < q_size q) \<longrightarrow> at q i = Undefined \<and> remove q i = (Undefined, q)) \<and>
         (0 \<le> i \<and> i < q_size q \<and> q_at q i = Val v \<longrightarrow>
            at q i = Val v \<and> at q i \<noteq> Undefined \<and> fst (remove q i) = Val v \<and>
            q_size (snd (remove q i)) = q_size q - 1 \<and>
            iterate (snd (remove q i)) = take (nat i) (iterate q) @ drop (nat i + 1) (iterate q))"
proof (intro conjI impI)
  assume "\<not> (0 \<le> i \<and> i < q_size q)"
  then show absent: "at q i = Undefined" by (auto simp: at_def)
  then show "remove q i = (Undefined, q)" by (rule remove_absent)
next
  assume a: "0 \<le> i \<and> i < q_size q \<and> q_at q i = Val v"
  then have item: "at q i = Val v" by (simp add: at_def)
  then show "at q i = Val v" and "at q i \<noteq> Undefined" by simp_all
  from a item have i: "0 \<le> i" "i < q_size q" "at q i \<noteq> Undefined" by simp_all
  from remove_keeps_order [OF assms i] item
  show "fst (remove q i) = Val v" and "q_size (snd (remove q i)) = q_size q - 1"
    and "iterate (snd (remove q i)) = take (nat i) (iterate q) @ drop (nat i + 1) (iterate q)"
    by simp_all
qed

theorem C7_marker_and_proper_values_witness:
  "Queue (Iterable [Val 10, Val 20, Val 30])
     = Inr (projr (Queue (Iterable [Val 10, Val 20, Val 30]) :: error + nat queue)) \<and>
   (let q = run [Pop, Push (Val 40)]
              (projr (Queue (Iterable [Val 10, Val 20, Val 30]) :: error + nat queue))
    in iterate q = [Val 20, Val 30, Val 40] \<and>
       \<not> (0 \<le> (7::int) \<and> 7 < q_size q) \<and>
       at q 7 = Undefined \<and> fst (remove q 7) = Undefined \<and>
       iterate (snd (remove q 7)) = [Val 20, Val 30, Val 40] \<and>
       (0 \<le> (1::int) \<and> 1 < q_size q \<and> q_at q 1 = Val 30) \<and>
       at q 1 = Val 30 \<and> fst (remove q 1) = Val 30 \<and>
       q_size (snd (remove q 1)) = 2 \<and> iterate (snd (remove q 1)) = [Val 20, Val 40])"
proof -
  define q0 where "q0 = projr (Queue (Iterable [Val 10, Val 20, Val 30]) :: error + nat queue)"
  define q where "q = run [Pop, Push (Val 40)] q0"
  have c: "Queue (Iterable [Val 10, Val 20, Val 30]) = Inr q0"
    by (simp add: q0_def Queue_def)
  have it: "iterate q = [Val 20, Val 30, Val 40]" unfolding q_def q0_def by code_simp
  have size: "q_size q = 3" unfolding q_def q0_def by code_simp
  have held: "q_at q 1 = Val 30" unfolding q_def q0_def by code_simp
  from size have out: "\<not> (0 \<le> (7::int) \<and> 7 < q_size q)" by simp
  from size held have inside: "0 \<le> (1::int) \<and> 1 < q_size q \<and> q_at q 1 = Val 30" by simp
  from C7_marker_and_proper_values [OF c q_def, of 7] out
  have far: "at q 7 = Undefined" "remove q 7 = (Undefined, q)" by blast+
  from C7_marker_and_proper_values [OF c q_def, of 1 "30"] inside
  have near: "at q 1 = Val 30" "fst (remove q 1) = Val 30"
    "q_size (snd (remove q 1)) = q_size q - 1"
    "iterate (snd (remove q 1)) = take (nat 1) (iterate q) @ drop (nat 1 + 1) (iterate q)"
    by blast+
  from near(3,4) size it have gone: "q_size (snd (remove q 1)) = 2"
    "iterate (snd (remove q 1)) = [Val 20, Val 40]" by simp_all
  from far it have same: "fst (remove q 7) = Undefined"
    "iterate (snd (remove q 7)) = [Val 20, Val 30, Val 40]" by simp_all
  from c it out far(1) same inside near(1,2) gone show ?thesis
    unfolding Let_def q_def q0_def by simp
qed

section \<open>Construction\<close>

text \<open>
  C8, as claimed: every capacity that is not a positive integer is refused. The
  capacity 0 is not: the constructor returns an empty queue over a store of length 0.
\<close>

theorem C8_capacity_zero_accepted:
  "Queue (Capacity 0) \<noteq> (Inl RangeError :: error + nat queue) \<and>
   q_size (projr (Queue (Capacity 0) :: error + nat queue)) = 0 \<and>
   elems (q_array (projr (Queue (Capacity 0) :: error + nat queue))) = []"
  by (simp add: Queue_def empty_queue_def new_Array_def)

text \<open>
  C8, amended: the constructor has no check of its own. What fails is
  \<^verbatim>\<open>new Array(capacity)\<close>, with a RangeError, exactly for a capacity that is
  negative or at least \<open>2^32\<close>, and for a number that is not an integer.
\<close>

theorem C8_constructor_error:
  "((Queue (Capacity n) :: error + 'a queue) = Inl RangeError) = (n < 0 \<or> 2 ^ 32 \<le> n) \<and>
   (Queue NonInteger :: error + 'a queue) = Inl RangeError"
  by (auto simp: Queue_def empty_queue_def new_Array_def)

text \<open>
  C9. A queue built from an empty iterable should take a push like an empty queue of
  capacity 1 does. The constructor sets the back index to \<open>size - 1 = -1\<close>, so the
  first push writes the property \<^verbatim>\<open>-1\<close> of an array of length 0, and the front slot 0
  stays empty: \<open>front\<close>, \<open>at 0\<close> and \<open>pop\<close> give \<open>Undefined\<close>, not the pushed 7.
\<close>

theorem C9_empty_iterable_loses_push:
  "(let q = push (projr (Queue (Iterable []) :: error + nat queue)) (Val 7)
    in q_size q = 1 \<and> q_backIndex q = N (- 1) \<and> elems (q_array q) = [] \<and>
       get_front q = Undefined \<and> at q 0 = Undefined \<and> fst (pop q) = Undefined \<and>
       get_back q = Val 7) \<and>
   (let q = push (projr (Queue (Capacity 1) :: error + nat queue)) (Val 7)
    in get_front q = Val 7 \<and> at q 0 = Val 7 \<and> fst (pop q) = Val 7)"
  by code_simp

section \<open>The empty queue after a removal\<close>

text \<open>
  C10. When the size reaches 0 the front and back indices should be equal, so that
  the next push is read by \<open>front\<close>. In a queue of capacity 3, push 1, 2, 3, pop
  twice and push 4: the window is slot 2 (holding 3) and slot 0 (holding 4).
  \<open>remove 0\<close> takes 3 out and increments the front index from 2 to 3 without
  wrapping it. The queue now holds 4 alone, but \<open>pop\<close> reads slot 3 and returns
  \<open>Undefined\<close>; the size is 0 with front index 3 and back index 0, and after a push
  of 5, \<open>front\<close> is \<open>Undefined\<close> while \<open>back\<close> and \<open>at 0\<close> are 5.
\<close>

theorem C10_front_not_back_when_emptied:
  "\<not> isl (Queue (Capacity 3) :: error + nat queue) \<and>
   (let q = run [Push (Val 1), Push (Val 2), Push (Val 3), Pop, Pop, Push (Val 4), Remove 0]
              (projr (Queue (Capacity 3) :: error + nat queue));
        q' = snd (pop q);
        q'' = push q' (Val 5)
    in q_size q = 1 \<and> iterate q = [Val 4] \<and> fst (pop q) = Undefined \<and>
       q_size q' = 0 \<and> q_frontIndex q' = N 3 \<and> q_backIndex q' = N 0 \<and>
       get_front q'' = Undefined \<and> get_back q'' = Val 5 \<and> at q'' 0 = Val 5)"
  by code_simp

end
